theory Spec2Isabelle
  imports Main "HOL-Library.AList"
begin

section \<open>The sanity-check harnesses of \<^verbatim>\<open>scripts/sanity_chk/harness.py\<close>\<close>

text \<open>
  The module defines a base class \<^verbatim>\<open>Harness\<close> and two subclasses, \<^verbatim>\<open>Console\<close> and
  \<^verbatim>\<open>Test\<close>. An object is created, configured once from a test instance, and then fed the
  output of the test process one line at a time through \<^verbatim>\<open>handle\<close>.

  The embedding follows the source: the object is a record that is passed in and returned
  updated, every exception the code can raise is a value of \<open>error\<close>, and the caller's loop
  over the output lines is a recursive function. Strings are byte lists; the markers and the
  result grammar are ASCII, so a search for them in the UTF-8 bytes of a line finds what
  Python finds in its code points.
\<close>

subsection \<open>Python strings\<close>

text \<open>\<^verbatim>\<open>s.startswith(p)\<close>.\<close>

fun startswith :: "string \<Rightarrow> string \<Rightarrow> bool" where
  "startswith s [] = True"
| "startswith [] (p # ps) = False"
| "startswith (c # cs) (p # ps) = (c = p \<and> startswith cs ps)"

text \<open>\<^verbatim>\<open>sub in s\<close> on strings: \<open>sub\<close> occurs in \<open>s\<close> as a contiguous piece.\<close>

fun str_in :: "string \<Rightarrow> string \<Rightarrow> bool" where
  "str_in sub [] = (sub = [])"
| "str_in sub (c # cs) = (startswith (c # cs) sub \<or> str_in sub cs)"

text \<open>\<^verbatim>\<open>"{}".format(x)\<close> for \<open>x\<close> a string or \<^verbatim>\<open>None\<close>.\<close>

fun format_id :: "string option \<Rightarrow> string" where
  "format_id None = ''None''"
| "format_id (Some s) = s"

subsection \<open>The result-line grammar\<close>

text \<open>
  \<^verbatim>\<open>result_re = re.compile("(PASS|FAIL|SKIP) - (test_)?(.*)")\<close>, used only through
  \<^verbatim>\<open>result_re.match(line)\<close>, which anchors the expression at the start of the line.
  The matcher below is this one expression written out. Group 1 is the first of the three
  alternatives the line starts with; the literal \<^verbatim>\<open>" - "\<close> must follow; the optional group 2
  is greedy, so \<^verbatim>\<open>test_\<close> is consumed whenever it is there (the rest of the expression
  cannot fail, so there is no backtracking into it); group 3 is \<^verbatim>\<open>.*\<close>, the longest run of
  characters other than a newline. The result is \<open>None\<close> when there is no match and
  \<open>Some (group 1, group 3)\<close> otherwise.
\<close>

definition strip_prefix :: "string \<Rightarrow> string \<Rightarrow> string option" where
  "strip_prefix p s = (if startswith s p then Some (drop (length p) s) else None)"

fun first_alt :: "string list \<Rightarrow> string \<Rightarrow> (string \<times> string) option" where
  "first_alt [] s = None"
| "first_alt (a # as) s =
     (case strip_prefix a s of Some rest \<Rightarrow> Some (a, rest) | None \<Rightarrow> first_alt as s)"

definition dot_star :: "string \<Rightarrow> string" where
  "dot_star s = takeWhile (\<lambda>c. c \<noteq> CHR 0x0A) s"

definition result_re_match :: "string \<Rightarrow> (string \<times> string) option" where
  "result_re_match line =
     (case first_alt [''PASS'', ''FAIL'', ''SKIP''] line of
        None \<Rightarrow> None
      | Some (g1, rest) \<Rightarrow>
          (case strip_prefix '' - '' rest of
             None \<Rightarrow> None
           | Some rest' \<Rightarrow>
               (case strip_prefix ''test_'' rest' of
                  Some name \<Rightarrow> Some (g1, dot_star name)
                | None \<Rightarrow> Some (g1, dot_star rest'))))"

subsection \<open>The test instance\<close>

text \<open>
  \<^verbatim>\<open>configure\<close> reads \<^verbatim>\<open>instance.test.harness_config\<close>, \<^verbatim>\<open>instance.test.id\<close> and
  \<^verbatim>\<open>instance.test.tags\<close>. The configuration is a dictionary read with \<^verbatim>\<open>config.get\<close>, so
  each of its four keys may be absent. \<open>harness_config = None\<close> stands for a configuration
  that is false in Python (\<^verbatim>\<open>None\<close> or the empty dictionary).
\<close>

record config =
  cfg_type :: "string option"
  cfg_regex :: "string list option"
  cfg_repeat :: "int option"
  cfg_ordered :: "bool option"

record test_case =
  harness_config :: "config option"
  test_id :: string
  tags :: "string list"

record test_instance =
  test :: test_case

subsection \<open>The base class\<close>

datatype error = IndexError | AttributeError | RegexError

text \<open>
  The attributes set by \<^verbatim>\<open>Harness.__init__\<close>. \<open>state\<close>, \<open>type\<close> and \<open>id_h\<close> (the
  attribute \<^verbatim>\<open>id\<close>) start as \<^verbatim>\<open>None\<close>. \<open>matches\<close> is an \<^verbatim>\<open>OrderedDict\<close>, kept as an
  association list in insertion order. \<open>tests\<close> is a dictionary whose keys are strings or,
  for a harness that was never configured, \<^verbatim>\<open>None\<close>.
\<close>

record harness =
  state :: "string option"
  type :: "string option"
  regex :: "string list"
  matches :: "(string \<times> string) list"
  ordered :: bool
  repeat :: int
  tests :: "string option \<rightharpoonup> string"
  id_h :: "string option"
  fail_on_fault :: bool
  fault :: bool
  capture_coverage :: bool
  next_pattern :: nat

definition GCOV_START :: string where "GCOV_START = ''GCOV_COVERAGE_DUMP_START''"
definition GCOV_END :: string where "GCOV_END = ''GCOV_COVERAGE_DUMP_END''"
definition FAULT :: string where "FAULT = ''ZEPHYR FATAL ERROR''"

definition Harness_init :: harness where
  "Harness_init =
     \<lparr> state = None, type = None, regex = [], matches = [], ordered = True, repeat = 1,
       tests = Map.empty, id_h = None, fail_on_fault = True, fault = False,
       capture_coverage = False, next_pattern = 0 \<rparr>"

definition Harness_configure :: "test_instance \<Rightarrow> 'a harness_scheme \<Rightarrow> 'a harness_scheme" where
  "Harness_configure inst h =
     (let h1 = h\<lparr>id_h := Some (test_id (test inst))\<rparr>;
          h2 = (if ''ignore_faults'' \<in> set (tags (test inst))
                then h1\<lparr>fail_on_fault := False\<rparr> else h1)
      in case harness_config (test inst) of
           None \<Rightarrow> h2
         | Some c \<Rightarrow>
             h2\<lparr>type := cfg_type c,
                regex := (case cfg_regex c of None \<Rightarrow> [] | Some rs \<Rightarrow> rs),
                repeat := (case cfg_repeat c of None \<Rightarrow> 1 | Some n \<Rightarrow> n),
                ordered := (case cfg_ordered c of None \<Rightarrow> True | Some b \<Rightarrow> b)\<rparr>)"

text \<open>
  The fault scan and the coverage scan, which \<^verbatim>\<open>Console.handle\<close> (lines 67 to 74) and
  \<^verbatim>\<open>Test.handle\<close> (lines 101 to 108) both end with.
\<close>

definition fault_scan :: "string \<Rightarrow> 'a harness_scheme \<Rightarrow> 'a harness_scheme" where
  "fault_scan line h =
     (if fail_on_fault h then (if str_in FAULT line then h\<lparr>fault := True\<rparr> else h) else h)"

definition coverage_scan :: "string \<Rightarrow> 'a harness_scheme \<Rightarrow> 'a harness_scheme" where
  "coverage_scan line h =
     (if str_in GCOV_START line then h\<lparr>capture_coverage := True\<rparr>
      else if str_in GCOV_END line then h\<lparr>capture_coverage := False\<rparr>
      else h)"

subsection \<open>The console harness\<close>

text \<open>
  \<^verbatim>\<open>Console.configure\<close> adds the attribute \<^verbatim>\<open>pattern\<close> or \<^verbatim>\<open>patterns\<close>; until then the
  attribute does not exist (\<open>None\<close>), and reading it raises \<^verbatim>\<open>AttributeError\<close>.

  Python's \<^verbatim>\<open>re\<close> module is not part of the repository. The functions take it as two
  parameters: \<open>compile\<close> maps the source of an expression to the compiled pattern, or to
  \<open>None\<close> where \<^verbatim>\<open>re.compile\<close> raises \<^verbatim>\<open>re.error\<close>; \<open>search p line\<close> tells whether
  \<^verbatim>\<open>p.search(line)\<close> finds a match.
\<close>

record 'rx console = harness +
  pattern :: "'rx option"
  patterns :: "'rx list option"

definition Console_init :: "'rx console" where
  "Console_init = harness.extend Harness_init \<lparr> pattern = None, patterns = None \<rparr>"

text \<open>The loop of lines 46 and 47; it stops at the first expression that does not compile.\<close>

fun compile_all :: "(string \<Rightarrow> 'rx option) \<Rightarrow> string list \<Rightarrow> 'rx list \<Rightarrow> error + 'rx list" where
  "compile_all compile [] acc = Inr acc"
| "compile_all compile (r # rs) acc =
     (case compile r of
        None \<Rightarrow> Inl RegexError
      | Some p \<Rightarrow> compile_all compile rs (acc @ [p]))"

definition Console_configure ::
  "(string \<Rightarrow> 'rx option) \<Rightarrow> test_instance \<Rightarrow> 'rx console \<Rightarrow> error + 'rx console" where
  "Console_configure compile inst h0 =
     (let h = Harness_configure inst h0
      in if type h = Some ''one_line'' then
           (case regex h of
              [] \<Rightarrow> Inl IndexError
            | r # _ \<Rightarrow>
                (case compile r of
                   None \<Rightarrow> Inl RegexError
                 | Some p \<Rightarrow> Inr (h\<lparr>pattern := Some p\<rparr>)))
         else if type h = Some ''multi_line'' then
           (case compile_all compile (regex h) [] of
              Inl e \<Rightarrow> Inl e
            | Inr ps \<Rightarrow> Inr (h\<lparr>patterns := Some ps\<rparr>))
         else Inr h)"

text \<open>
  The loop of lines 60 to 63 over \<^verbatim>\<open>enumerate(self.patterns)\<close>, at index \<open>i\<close>, with the
  dictionary \<open>m\<close> built so far. \<^verbatim>\<open>self.regex[i]\<close> is read before the search and raises
  \<^verbatim>\<open>IndexError\<close> when there are more patterns than expressions.
\<close>

fun match_loop ::
  "('rx \<Rightarrow> string \<Rightarrow> bool) \<Rightarrow> string \<Rightarrow> string list \<Rightarrow> nat \<Rightarrow> 'rx list \<Rightarrow>
     (string \<times> string) list \<Rightarrow> error + (string \<times> string) list" where
  "match_loop search line rs i [] m = Inr m"
| "match_loop search line rs i (p # ps) m =
     (if i < length rs then
        (let r = rs ! i
         in match_loop search line rs (Suc i) ps
              (if search p line \<and> r \<notin> fst ` set m then AList.update r line m else m))
      else Inl IndexError)"

text \<open>Lines 50 to 65: the dispatch on the mode.\<close>

definition Console_match ::
  "('rx \<Rightarrow> string \<Rightarrow> bool) \<Rightarrow> string \<Rightarrow> 'rx console \<Rightarrow> error + 'rx console" where
  "Console_match search line h =
     (if type h = Some ''one_line'' then
        (case pattern h of
           None \<Rightarrow> Inl AttributeError
         | Some p \<Rightarrow> Inr (if search p line then h\<lparr>state := Some ''passed''\<rparr> else h))
      else if type h = Some ''multi_line'' \<and> ordered h then
        (case patterns h of
           None \<Rightarrow> Inl AttributeError
         | Some ps \<Rightarrow>
             Inr (if next_pattern h < length ps \<and> search (ps ! next_pattern h) line then
                    (let h' = h\<lparr>next_pattern := next_pattern h + 1\<rparr>
                     in if next_pattern h' \<ge> length ps then h'\<lparr>state := Some ''passed''\<rparr>
                        else h')
                  else h))
      else if type h = Some ''multi_line'' \<and> \<not> ordered h then
        (case patterns h of
           None \<Rightarrow> Inl AttributeError
         | Some ps \<Rightarrow>
             (case match_loop search line (regex h) 0 ps (matches h) of
                Inl e \<Rightarrow> Inl e
              | Inr m \<Rightarrow>
                  (let h' = h\<lparr>matches := m\<rparr>
                   in Inr (if length (matches h') = length (regex h')
                           then h'\<lparr>state := Some ''passed''\<rparr> else h'))))
      else Inr h)"

text \<open>Lines 76 to 79.\<close>

definition Console_report :: "'rx console \<Rightarrow> 'rx console" where
  "Console_report h =
     (if state h = Some ''passed'' then h\<lparr>tests := (tests h)(id_h h \<mapsto> ''PASS'')\<rparr>
      else h\<lparr>tests := (tests h)(id_h h \<mapsto> ''FAIL'')\<rparr>)"

definition Console_handle ::
  "('rx \<Rightarrow> string \<Rightarrow> bool) \<Rightarrow> string \<Rightarrow> 'rx console \<Rightarrow> error + 'rx console" where
  "Console_handle search line h =
     (case Console_match search line h of
        Inl e \<Rightarrow> Inl e
      | Inr h1 \<Rightarrow> Inr (Console_report (coverage_scan line (fault_scan line h1))))"

text \<open>The caller feeds the lines in order; an exception ends the run.\<close>

fun Console_run ::
  "('rx \<Rightarrow> string \<Rightarrow> bool) \<Rightarrow> string list \<Rightarrow> 'rx console \<Rightarrow> error + 'rx console" where
  "Console_run search [] h = Inr h"
| "Console_run search (line # lines) h =
     (case Console_handle search line h of
        Inl e \<Rightarrow> Inl e
      | Inr h' \<Rightarrow> Console_run search lines h')"

subsection \<open>The structured-result harness\<close>

definition RUN_PASSED :: string where "RUN_PASSED = ''PROJECT EXECUTION SUCCESSFUL''"
definition RUN_FAILED :: string where "RUN_FAILED = ''PROJECT EXECUTION FAILED''"

text \<open>Lines 87 to 90.\<close>

definition Test_result :: "string \<Rightarrow> harness \<Rightarrow> harness" where
  "Test_result line h =
     (case result_re_match line of
        None \<Rightarrow> h
      | Some (g1, g3) \<Rightarrow>
          (let name = format_id (id_h h) @ ''.'' @ g3
           in h\<lparr>tests := (tests h)(Some name \<mapsto> g1)\<rparr>))"

text \<open>Lines 92 to 99: the two banners, the successful one first.\<close>

definition Test_banners :: "string \<Rightarrow> harness \<Rightarrow> harness" where
  "Test_banners line h =
     (let h1 = (if str_in RUN_PASSED line then
                  (if fault h then h\<lparr>state := Some ''failed''\<rparr>
                   else h\<lparr>state := Some ''passed''\<rparr>)
                else h)
      in if str_in RUN_FAILED line then h1\<lparr>state := Some ''failed''\<rparr> else h1)"

definition Test_handle :: "string \<Rightarrow> harness \<Rightarrow> harness" where
  "Test_handle line h =
     coverage_scan line (fault_scan line (Test_banners line (Test_result line h)))"

fun Test_run :: "string list \<Rightarrow> harness \<Rightarrow> harness" where
  "Test_run [] h = h"
| "Test_run (line # lines) h = Test_run lines (Test_handle line h)"

text \<open>
  The structured-result harness has no \<^verbatim>\<open>configure\<close> of its own: a session creates the
  object, calls the inherited \<^verbatim>\<open>configure\<close> and feeds the lines.
\<close>

definition Test_session :: "test_instance \<Rightarrow> string list \<Rightarrow> harness" where
  "Test_session inst lines = Test_run lines (Harness_configure inst Harness_init)"

definition Console_session ::
  "(string \<Rightarrow> 'rx option) \<Rightarrow> ('rx \<Rightarrow> string \<Rightarrow> bool) \<Rightarrow> test_instance \<Rightarrow> string list \<Rightarrow>
     error + 'rx console" where
  "Console_session compile search inst lines =
     (case Console_configure compile inst Console_init of
        Inl e \<Rightarrow> Inl e
      | Inr h \<Rightarrow> Console_run search lines h)"

subsection \<open>Concrete inputs\<close>

text \<open>
  An expression without metacharacters always compiles, and \<^verbatim>\<open>search\<close> finds it exactly
  where it occurs as a substring; the expression \<^verbatim>\<open>(\<close> alone does not compile
  (\<^verbatim>\<open>re.error\<close>, a missing closing parenthesis). These two functions are that fragment
  of \<^verbatim>\<open>re\<close>; the concrete runs below use them with such expressions only.
\<close>

definition literal_compile :: "string \<Rightarrow> string option" where
  "literal_compile r = (if r = ''('' then None else Some r)"

definition literal_search :: "string \<Rightarrow> string \<Rightarrow> bool" where
  "literal_search p line = str_in p line"

definition mk_instance :: "string \<Rightarrow> string list \<Rightarrow> config option \<Rightarrow> test_instance" where
  "mk_instance i ts c = \<lparr> test = \<lparr> harness_config = c, test_id = i, tags = ts \<rparr> \<rparr>"

definition mk_config :: "string \<Rightarrow> string list \<Rightarrow> bool \<Rightarrow> config" where
  "mk_config t rs b =
     \<lparr> cfg_type = Some t, cfg_regex = Some rs, cfg_repeat = None, cfg_ordered = Some b \<rparr>"

subsection \<open>Reachable console harnesses\<close>

text \<open>
  \<open>re_search compile search r line\<close>: the expression with source \<open>r\<close> compiles and is
  found in the line.
\<close>

definition re_search ::
  "(string \<Rightarrow> 'rx option) \<Rightarrow> ('rx \<Rightarrow> string \<Rightarrow> bool) \<Rightarrow> string \<Rightarrow> string \<Rightarrow> bool" where
  "re_search compile search r line =
     (case compile r of None \<Rightarrow> False | Some p \<Rightarrow> search p line)"

text \<open>
  What holds of a console harness after a successful \<^verbatim>\<open>configure\<close> and after every line
  it then handles: the attribute its mode reads exists, the compiled patterns are those of
  the configured expressions, the keys of \<open>matches\<close> are configured expressions, each
  recorded once, and the verdict is unset or \<^verbatim>\<open>"passed"\<close>.
\<close>

definition Console_inv :: "(string \<Rightarrow> 'rx option) \<Rightarrow> 'rx console \<Rightarrow> bool" where
  "Console_inv compile h \<longleftrightarrow>
     (type h = Some ''one_line'' \<longrightarrow> pattern h \<noteq> None) \<and>
     (type h = Some ''multi_line'' \<longrightarrow>
        (\<exists>ps. patterns h = Some ps \<and> map compile (regex h) = map Some ps)) \<and>
     distinct (map fst (matches h)) \<and>
     fst ` set (matches h) \<subseteq> set (regex h) \<and>
     (state h = None \<or> state h = Some ''passed'')"

section \<open>Properties\<close>

subsection \<open>What each step changes\<close>

lemma fault_scan_fields [simp]:
  "state (fault_scan l h) = state h"
  "type (fault_scan l h) = type h"
  "regex (fault_scan l h) = regex h"
  "matches (fault_scan l h) = matches h"
  "ordered (fault_scan l h) = ordered h"
  "tests (fault_scan l h) = tests h"
  "id_h (fault_scan l h) = id_h h"
  "fail_on_fault (fault_scan l h) = fail_on_fault h"
  "next_pattern (fault_scan l h) = next_pattern h"
  "harness.more (fault_scan l h) = harness.more h"
  "fault (fault_scan l h) = (fault h \<or> fail_on_fault h \<and> str_in FAULT l)"
  by (simp_all add: fault_scan_def)

lemma coverage_scan_fields [simp]:
  "state (coverage_scan l h) = state h"
  "type (coverage_scan l h) = type h"
  "regex (coverage_scan l h) = regex h"
  "matches (coverage_scan l h) = matches h"
  "ordered (coverage_scan l h) = ordered h"
  "tests (coverage_scan l h) = tests h"
  "id_h (coverage_scan l h) = id_h h"
  "fail_on_fault (coverage_scan l h) = fail_on_fault h"
  "next_pattern (coverage_scan l h) = next_pattern h"
  "harness.more (coverage_scan l h) = harness.more h"
  "fault (coverage_scan l h) = fault h"
  by (simp_all add: coverage_scan_def)

lemma console_scan_fields [simp]:
  "pattern (fault_scan l h) = pattern h"
  "patterns (fault_scan l h) = patterns h"
  "pattern (coverage_scan l h) = pattern h"
  "patterns (coverage_scan l h) = patterns h"
  by (simp_all add: fault_scan_def coverage_scan_def)

lemma Test_result_fields [simp]:
  "state (Test_result l h) = state h"
  "id_h (Test_result l h) = id_h h"
  "fail_on_fault (Test_result l h) = fail_on_fault h"
  "fault (Test_result l h) = fault h"
  by (simp_all add: Test_result_def Let_def split: option.split prod.split)

lemma Test_banners_fields [simp]:
  "tests (Test_banners l h) = tests h"
  "id_h (Test_banners l h) = id_h h"
  "fail_on_fault (Test_banners l h) = fail_on_fault h"
  "fault (Test_banners l h) = fault h"
  by (simp_all add: Test_banners_def Let_def)

lemma Test_banners_state:
  "state (Test_banners l h) =
     (if str_in RUN_FAILED l then Some ''failed''
      else if str_in RUN_PASSED l then (if fault h then Some ''failed'' else Some ''passed'')
      else state h)"
  by (simp add: Test_banners_def Let_def)

lemma Test_handle_state:
  "state (Test_handle l h) =
     (if str_in RUN_FAILED l then Some ''failed''
      else if str_in RUN_PASSED l then (if fault h then Some ''failed'' else Some ''passed'')
      else state h)"
  by (simp add: Test_handle_def Test_banners_state)

lemma Test_handle_fault:
  "fault (Test_handle l h) = (fault h \<or> fail_on_fault h \<and> str_in FAULT l)"
  by (simp add: Test_handle_def)

lemma Test_handle_fields [simp]:
  "id_h (Test_handle l h) = id_h h"
  "fail_on_fault (Test_handle l h) = fail_on_fault h"
  by (simp_all add: Test_handle_def)

lemma Test_handle_tests:
  "tests (Test_handle l h) =
     (case result_re_match l of
        None \<Rightarrow> tests h
      | Some (g1, g3) \<Rightarrow> (tests h)(Some (format_id (id_h h) @ ''.'' @ g3) \<mapsto> g1))"
  by (simp add: Test_handle_def Test_result_def Let_def split: option.split prod.split)

lemma Test_run_append: "Test_run (ls @ ls') h = Test_run ls' (Test_run ls h)"
  by (induction ls arbitrary: h) simp_all

lemma Test_run_fields [simp]:
  "id_h (Test_run ls h) = id_h h"
  "fail_on_fault (Test_run ls h) = fail_on_fault h"
  by (induction ls arbitrary: h) simp_all

lemma Test_run_running: "state h \<noteq> None \<Longrightarrow> state (Test_run ls h) \<noteq> None"
  by (induction ls arbitrary: h) (simp_all add: Test_handle_state)

lemma Test_run_no_fault:
  "\<not> fail_on_fault h \<Longrightarrow> \<not> fault h \<Longrightarrow> \<not> fault (Test_run ls h)"
  by (induction ls arbitrary: h) (simp_all add: Test_handle_fault)

lemma Console_report_fields [simp]:
  "state (Console_report h) = state h"
  "type (Console_report h) = type h"
  "regex (Console_report h) = regex h"
  "matches (Console_report h) = matches h"
  "ordered (Console_report h) = ordered h"
  "id_h (Console_report h) = id_h h"
  "fail_on_fault (Console_report h) = fail_on_fault h"
  "fault (Console_report h) = fault h"
  "next_pattern (Console_report h) = next_pattern h"
  "pattern (Console_report h) = pattern h"
  "patterns (Console_report h) = patterns h"
  "tests (Console_report h) =
     (tests h)(id_h h \<mapsto> (if state h = Some ''passed'' then ''PASS'' else ''FAIL''))"
  by (simp_all add: Console_report_def)

lemma Console_match_fields:
  assumes "Console_match search l h = Inr h'"
  shows "type h' = type h" "regex h' = regex h" "ordered h' = ordered h" "id_h h' = id_h h"
    "fail_on_fault h' = fail_on_fault h" "fault h' = fault h" "tests h' = tests h"
    "pattern h' = pattern h" "patterns h' = patterns h"
  using assms
  by (auto simp: Console_match_def Let_def split: if_splits option.splits sum.splits)

lemma Console_handle_Inr:
  "Console_handle search l h = Inr h' \<longleftrightarrow>
     (\<exists>h1. Console_match search l h = Inr h1 \<and>
           h' = Console_report (coverage_scan l (fault_scan l h1)))"
  by (auto simp: Console_handle_def split: sum.splits)

lemma Console_handle_fields:
  assumes "Console_handle search l h = Inr h'"
  shows "type h' = type h" "regex h' = regex h" "ordered h' = ordered h" "id_h h' = id_h h"
    "fail_on_fault h' = fail_on_fault h" "pattern h' = pattern h" "patterns h' = patterns h"
    "fault h' = (fault h \<or> fail_on_fault h \<and> str_in FAULT l)"
    "tests h' = (tests h)(id_h h \<mapsto> (if state h' = Some ''passed'' then ''PASS'' else ''FAIL''))"
  using assms Console_match_fields [of search l h]
  by (auto simp: Console_handle_Inr)

lemma compile_all_Inr:
  "compile_all compile rs acc = Inr ps \<Longrightarrow>
     \<exists>ps'. ps = acc @ ps' \<and> map compile rs = map Some ps'"
proof (induction rs arbitrary: acc)
  case Nil
  then show ?case by simp
next
  case (Cons r rs)
  then obtain p where p: "compile r = Some p" and rest: "compile_all compile rs (acc @ [p]) = Inr ps"
    by (auto split: option.splits)
  from Cons.IH [OF rest] obtain ps' where "ps = (acc @ [p]) @ ps'" "map compile rs = map Some ps'"
    by blast
  with p show ?case by (intro exI [of _ "p # ps'"]) simp
qed

lemma Harness_configure_fields [simp]:
  "state (Harness_configure inst h) = state h"
  "matches (Harness_configure inst h) = matches h"
  "fault (Harness_configure inst h) = fault h"
  "tests (Harness_configure inst h) = tests h"
  "next_pattern (Harness_configure inst h) = next_pattern h"
  "id_h (Harness_configure inst h) = Some (test_id (test inst))"
  "fail_on_fault (Harness_configure inst h) =
     (''ignore_faults'' \<notin> set (tags (test inst)) \<and> fail_on_fault h)"
  by (simp_all add: Harness_configure_def Let_def split: option.split)

lemma Console_configure_fields:
  assumes "Console_configure compile inst h = Inr h'"
  shows "state h' = state h" "matches h' = matches h" "fault h' = fault h" "tests h' = tests h"
    "next_pattern h' = next_pattern h" "id_h h' = Some (test_id (test inst))"
    "fail_on_fault h' = (''ignore_faults'' \<notin> set (tags (test inst)) \<and> fail_on_fault h)"
    "type h' = type (Harness_configure inst h)" "regex h' = regex (Harness_configure inst h)"
    "ordered h' = ordered (Harness_configure inst h)"
  using assms
  by (auto simp: Console_configure_def Let_def split: if_splits list.splits option.splits sum.splits)

lemma Console_init_fields [simp]:
  "state Console_init = None" "type Console_init = None" "regex Console_init = []"
  "matches Console_init = []" "ordered Console_init" "tests Console_init = Map.empty"
  "id_h Console_init = None" "fail_on_fault Console_init" "\<not> fault Console_init"
  "next_pattern Console_init = 0" "pattern Console_init = None" "patterns Console_init = None"
  by (simp_all add: Console_init_def Harness_init_def harness.extend_def)

lemma Console_configure_inv:
  assumes "Console_configure compile inst Console_init = Inr h"
  shows "Console_inv compile h"
proof -
  note f = Console_configure_fields [OF assms]
  have one: "type h = Some ''one_line'' \<longrightarrow> pattern h \<noteq> None"
    using assms
    by (auto simp: Console_configure_def Let_def split: if_splits list.splits option.splits sum.splits)
  have multi: "type h = Some ''multi_line'' \<longrightarrow>
      (\<exists>ps. patterns h = Some ps \<and> map compile (regex h) = map Some ps)"
    using assms
    by (auto simp: Console_configure_def Let_def
        split: if_splits list.splits option.splits sum.splits dest!: compile_all_Inr)
  show ?thesis
    unfolding Console_inv_def using one multi f by simp
qed

subsection \<open>The unordered loop\<close>

lemma match_loop_Inr:
  "i + length ps \<le> length rs \<Longrightarrow>
   \<exists>m'. match_loop search l rs i ps m = Inr m' \<and>
        (\<forall>r. map_of m' r =
           (case map_of m r of
              Some v \<Rightarrow> Some v
            | None \<Rightarrow> (if \<exists>p. (r, p) \<in> set (zip (drop i rs) ps) \<and> search p l
                       then Some l else None))) \<and>
        (distinct (map fst m) \<longrightarrow> distinct (map fst m'))"
proof (induction ps arbitrary: i m)
  case Nil
  then show ?case by (simp split: option.split)
next
  case (Cons p ps)
  let ?r = "rs ! i"
  let ?m1 = "if search p l \<and> ?r \<notin> fst ` set m then AList.update ?r l m else m"
  from Cons.prems have i: "i < length rs" and le: "Suc i + length ps \<le> length rs"
    by simp_all
  from Cons.IH [OF le, of ?m1] obtain m' where
    run: "match_loop search l rs (Suc i) ps ?m1 = Inr m'" and
    lookup: "\<And>r. map_of m' r =
       (case map_of ?m1 r of
          Some v \<Rightarrow> Some v
        | None \<Rightarrow> (if \<exists>q. (r, q) \<in> set (zip (drop (Suc i) rs) ps) \<and> search q l
                   then Some l else None))" and
    dist: "distinct (map fst ?m1) \<longrightarrow> distinct (map fst m')"
    by blast
  have drop: "drop i rs = ?r # drop (Suc i) rs"
    using i by (simp add: Cons_nth_drop_Suc)
  have key: "?r \<notin> fst ` set m \<longleftrightarrow> map_of m ?r = None"
    by (simp add: map_of_eq_None_iff)
  have "match_loop search l rs i (p # ps) m = Inr m'"
    using i run by (simp add: Let_def)
  moreover have "map_of m' r =
       (case map_of m r of
          Some v \<Rightarrow> Some v
        | None \<Rightarrow> (if \<exists>q. (r, q) \<in> set (zip (drop i rs) (p # ps)) \<and> search q l
                   then Some l else None))" for r
    unfolding lookup [of r] drop key
    by (auto simp: update_conv' split: option.splits)
  moreover have "distinct (map fst m) \<longrightarrow> distinct (map fst m')"
    using dist by (simp add: distinct_update)
  ultimately show ?case by blast
qed

lemma zip_compiled:
  "map compile rs = map Some ps \<Longrightarrow>
     (\<exists>p. (r, p) \<in> set (zip rs ps) \<and> search p l) \<longleftrightarrow> r \<in> set rs \<and> re_search compile search r l"
proof (induction rs arbitrary: ps)
  case Nil
  then show ?case by simp
next
  case (Cons a rs)
  then obtain q qs where ps: "ps = q # qs" and q: "compile a = Some q"
    and rest: "map compile rs = map Some qs"
    by (cases ps) auto
  show ?case
    using Cons.IH [OF rest] q unfolding ps
    by (auto simp: re_search_def)
qed

lemma keys_length:
  assumes "distinct (map fst m)"
  shows "length m = card (dom (map_of m))"
proof -
  have "card (dom (map_of m)) = card (set (map fst m))"
    by (simp add: dom_map_of_conv_image_fst)
  also have "\<dots> = length (map fst m)"
    using assms by (rule distinct_card)
  finally show ?thesis by simp
qed

subsection \<open>Handling lines keeps the console harness well formed\<close>

lemma Console_handle_state:
  assumes "Console_handle search l h = Inr h'"
  shows "state h' = Some ''passed'' \<or> state h' = state h"
  using assms
  by (auto simp: Console_handle_Inr Console_match_def Let_def
      split: if_splits option.splits sum.splits)

lemma Console_handle_matches_ordered:
  assumes "Console_handle search l h = Inr h'" "\<not> (type h = Some ''multi_line'' \<and> \<not> ordered h)"
  shows "matches h' = matches h"
  using assms
  by (auto simp: Console_handle_Inr Console_match_def Let_def
      split: if_splits option.splits sum.splits)

lemma Console_handle_unordered:
  assumes inv: "Console_inv compile h" and multi: "type h = Some ''multi_line''"
    and unordered: "\<not> ordered h"
  shows "\<exists>h'. Console_handle search l h = Inr h' \<and>
     (\<forall>r. map_of (matches h') r =
        (case map_of (matches h) r of
           Some v \<Rightarrow> Some v
         | None \<Rightarrow> (if r \<in> set (regex h) \<and> re_search compile search r l
                    then Some l else None))) \<and>
     distinct (map fst (matches h')) \<and>
     state h' = (if length (matches h') = length (regex h) then Some ''passed'' else state h)"
proof -
  from inv multi obtain ps where ps: "patterns h = Some ps"
    and compiled: "map compile (regex h) = map Some ps"
    by (auto simp: Console_inv_def)
  from compiled have "length (regex h) = length ps"
    by (metis length_map)
  then have "0 + length ps \<le> length (regex h)" by simp
  from match_loop_Inr [OF this, of search l "matches h"] obtain m' where
    loop: "match_loop search l (regex h) 0 ps (matches h) = Inr m'" and
    lookup0: "\<forall>r. map_of m' r =
       (case map_of (matches h) r of
          Some v \<Rightarrow> Some v
        | None \<Rightarrow> (if \<exists>p. (r, p) \<in> set (zip (drop 0 (regex h)) ps) \<and> search p l
                   then Some l else None))" and
    dist: "distinct (map fst (matches h)) \<longrightarrow> distinct (map fst m')"
    by blast
  from lookup0 [unfolded drop_0] have lookup: "\<And>r. map_of m' r =
       (case map_of (matches h) r of
          Some v \<Rightarrow> Some v
        | None \<Rightarrow> (if \<exists>p. (r, p) \<in> set (zip (regex h) ps) \<and> search p l
                   then Some l else None))"
    by blast
  let ?h1 = "if length m' = length (regex h)
             then h\<lparr>matches := m', state := Some ''passed''\<rparr> else h\<lparr>matches := m'\<rparr>"
  have "Console_match search l h = Inr ?h1"
    using multi unordered ps loop by (simp add: Console_match_def Let_def)
  then have "Console_handle search l h =
      Inr (Console_report (coverage_scan l (fault_scan l ?h1)))"
    by (simp add: Console_handle_def)
  moreover have "distinct (map fst m')"
    using dist inv by (simp add: Console_inv_def)
  moreover have "map_of m' r =
       (case map_of (matches h) r of
          Some v \<Rightarrow> Some v
        | None \<Rightarrow> (if r \<in> set (regex h) \<and> re_search compile search r l
                   then Some l else None))" for r
    unfolding lookup zip_compiled [OF compiled] ..
  ultimately show ?thesis
    by (intro exI [of _ "Console_report (coverage_scan l (fault_scan l ?h1))"]) simp
qed

lemma lookup_keys:
  assumes "\<forall>r. map_of m' r =
        (case map_of m r of
           Some v \<Rightarrow> Some v
         | None \<Rightarrow> (if r \<in> set rs \<and> P r then Some (f r) else None))"
    and "fst ` set m \<subseteq> set rs"
  shows "fst ` set m' \<subseteq> set rs"
proof
  fix r assume "r \<in> fst ` set m'"
  then have "map_of m' r \<noteq> None"
    by (simp add: map_of_eq_None_iff)
  with assms(1) have "map_of m r \<noteq> None \<or> r \<in> set rs"
    by (auto split: option.splits if_splits)
  with assms(2) show "r \<in> set rs"
    by (auto simp: map_of_eq_None_iff)
qed

lemma Console_handle_inv:
  assumes inv: "Console_inv compile h"
  shows "\<exists>h'. Console_handle search l h = Inr h' \<and> Console_inv compile h'"
proof (cases "type h = Some ''multi_line'' \<and> \<not> ordered h")
  case True
  from Console_handle_unordered [OF inv, of search l] True obtain h' where
    h': "Console_handle search l h = Inr h'" and
    lookup: "\<forall>r. map_of (matches h') r =
        (case map_of (matches h) r of
           Some v \<Rightarrow> Some v
         | None \<Rightarrow> (if r \<in> set (regex h) \<and> re_search compile search r l
                    then Some l else None))" and
    dist: "distinct (map fst (matches h'))" and
    st: "state h' = (if length (matches h') = length (regex h) then Some ''passed'' else state h)"
    by blast
  have "fst ` set (matches h') \<subseteq> set (regex h)"
    using lookup_keys [OF lookup] inv by (simp add: Console_inv_def)
  then have "Console_inv compile h'"
    using inv dist st Console_handle_fields [OF h']
    by (simp add: Console_inv_def)
  with h' show ?thesis by blast
next
  case False
  have "\<exists>h1. Console_match search l h = Inr h1"
    using inv False
    by (auto simp: Console_inv_def Console_match_def Let_def split: option.splits)
  then obtain h' where h': "Console_handle search l h = Inr h'"
    by (auto simp: Console_handle_def)
  have "Console_inv compile h'"
    using inv Console_handle_fields [OF h'] Console_handle_state [OF h']
      Console_handle_matches_ordered [OF h' False]
    by (auto simp: Console_inv_def)
  with h' show ?thesis by blast
qed

lemma Console_run_inv:
  "Console_inv compile h \<Longrightarrow> \<exists>h'. Console_run search ls h = Inr h' \<and> Console_inv compile h'"
proof (induction ls arbitrary: h)
  case Nil
  then show ?case by simp
next
  case (Cons l ls)
  from Console_handle_inv [OF Cons.prems, of search l] obtain h1 where
    "Console_handle search l h = Inr h1" "Console_inv compile h1"
    by blast
  with Cons.IH [of h1] show ?case by simp
qed

lemma Console_run_Cons:
  "Console_run search (l # ls) h = Inr h' \<longleftrightarrow>
     (\<exists>h1. Console_handle search l h = Inr h1 \<and> Console_run search ls h1 = Inr h')"
  by (auto split: sum.splits)

lemma Console_run_append:
  "Console_run search (ls @ ls') h = Inr h' \<longleftrightarrow>
     (\<exists>h1. Console_run search ls h = Inr h1 \<and> Console_run search ls' h1 = Inr h')"
  by (induction ls arbitrary: h) (auto split: sum.splits)

lemma Console_run_fields:
  assumes "Console_run search ls h = Inr h'"
  shows "type h' = type h \<and> regex h' = regex h \<and> ordered h' = ordered h \<and> id_h h' = id_h h \<and>
    fail_on_fault h' = fail_on_fault h \<and> pattern h' = pattern h \<and> patterns h' = patterns h"
  using assms
proof (induction ls arbitrary: h)
  case Nil
  then show ?case by simp
next
  case (Cons l ls)
  then obtain h1 where h1: "Console_handle search l h = Inr h1"
    and rest: "Console_run search ls h1 = Inr h'"
    by (auto split: sum.splits)
  from Cons.IH [OF rest] Console_handle_fields [OF h1] show ?case by simp
qed

lemma Console_run_passed:
  assumes "Console_run search ls h = Inr h'" "state h = Some ''passed''"
  shows "state h' = Some ''passed''"
  using assms
proof (induction ls arbitrary: h)
  case Nil
  then show ?case by simp
next
  case (Cons l ls)
  then obtain h1 where h1: "Console_handle search l h = Inr h1"
    and rest: "Console_run search ls h1 = Inr h'"
    by (auto split: sum.splits)
  from Console_handle_state [OF h1] Cons.prems(2) have "state h1 = Some ''passed''" by auto
  from Cons.IH [OF rest this] show ?case .
qed

lemma Console_run_no_fault:
  assumes "Console_run search ls h = Inr h'" "\<not> fail_on_fault h" "\<not> fault h"
  shows "\<not> fault h'"
  using assms
proof (induction ls arbitrary: h)
  case Nil
  then show ?case by simp
next
  case (Cons l ls)
  then obtain h1 where h1: "Console_handle search l h = Inr h1"
    and rest: "Console_run search ls h1 = Inr h'"
    by (auto split: sum.splits)
  from Console_handle_fields [OF h1] Cons.prems have "\<not> fail_on_fault h1" "\<not> fault h1"
    by simp_all
  from Cons.IH [OF rest this] show ?case .
qed

lemma matches_bound:
  assumes "Console_inv compile h"
  shows "length (matches h) \<le> card (set (regex h))"
proof -
  from assms have d: "distinct (map fst (matches h))"
    and sub: "fst ` set (matches h) \<subseteq> set (regex h)"
    by (simp_all add: Console_inv_def)
  have "length (matches h) = card (fst ` set (matches h))"
    using keys_length [OF d] by (simp add: dom_map_of_conv_image_fst)
  also have "\<dots> \<le> card (set (regex h))"
    using sub by (simp add: card_mono)
  finally show ?thesis .
qed

lemma matches_grow:
  assumes "distinct (map fst m)" "distinct (map fst m')"
    and "\<And>r. map_of m r \<noteq> None \<Longrightarrow> map_of m' r \<noteq> None"
  shows "length m \<le> length m'"
proof -
  have "dom (map_of m) \<subseteq> dom (map_of m')"
    using assms(3) by (auto simp: dom_def)
  then have "card (dom (map_of m)) \<le> card (dom (map_of m'))"
    by (simp add: card_mono finite_dom_map_of)
  then show ?thesis
    using assms(1,2) by (simp add: keys_length)
qed

lemma unordered_run:
  assumes "Console_inv compile h" "type h = Some ''multi_line''" "\<not> ordered h"
  shows "\<exists>h'. Console_run search ls h = Inr h' \<and> Console_inv compile h' \<and>
     (\<forall>r. map_of (matches h') r =
        (case map_of (matches h) r of
           Some v \<Rightarrow> Some v
         | None \<Rightarrow> (if r \<in> set (regex h) then find (re_search compile search r) ls
                    else None))) \<and>
     (state h' = Some ''passed'' \<longleftrightarrow>
        state h = Some ''passed'' \<or> ls \<noteq> [] \<and> length (matches h') = length (regex h))"
  using assms
proof (induction ls arbitrary: h)
  case Nil
  then show ?case by (simp split: option.split)
next
  case (Cons l ls)
  from Console_handle_unordered [OF Cons.prems, of search l] obtain h1 where
    h1: "Console_handle search l h = Inr h1" and
    lookup1: "\<And>r. map_of (matches h1) r =
        (case map_of (matches h) r of
           Some v \<Rightarrow> Some v
         | None \<Rightarrow> (if r \<in> set (regex h) \<and> re_search compile search r l
                    then Some l else None))" and
    st1: "state h1 = (if length (matches h1) = length (regex h) then Some ''passed'' else state h)"
    by blast
  from Console_handle_inv [OF Cons.prems(1), of search l] h1 have inv1: "Console_inv compile h1"
    by auto
  note f1 = Console_handle_fields [OF h1]
  have t1: "type h1 = Some ''multi_line''" and o1: "\<not> ordered h1"
    and r1: "regex h1 = regex h"
    using f1 Cons.prems by simp_all
  from Cons.IH [OF inv1 t1 o1] obtain h' where
    run: "Console_run search ls h1 = Inr h'" and inv': "Console_inv compile h'" and
    lookup0: "\<forall>r. map_of (matches h') r =
        (case map_of (matches h1) r of
           Some v \<Rightarrow> Some v
         | None \<Rightarrow> (if r \<in> set (regex h1) then find (re_search compile search r) ls
                    else None))" and
    st0: "state h' = Some ''passed'' \<longleftrightarrow>
        state h1 = Some ''passed'' \<or> ls \<noteq> [] \<and> length (matches h') = length (regex h1)"
    by blast
  note st' = st0 [unfolded r1]
  from lookup0 [unfolded r1] have lookup': "\<And>r. map_of (matches h') r =
        (case map_of (matches h1) r of
           Some v \<Rightarrow> Some v
         | None \<Rightarrow> (if r \<in> set (regex h) then find (re_search compile search r) ls
                    else None))"
    by blast
  have regex': "regex h' = regex h"
    using Console_run_fields [OF run] f1 by simp
  have "length (matches h1) \<le> length (matches h')"
  proof (rule matches_grow)
    show "distinct (map fst (matches h1))" using inv1 by (simp add: Console_inv_def)
    show "distinct (map fst (matches h'))" using inv' by (simp add: Console_inv_def)
    show "map_of (matches h') r \<noteq> None" if "map_of (matches h1) r \<noteq> None" for r
      using that by (auto simp: lookup' [of r])
  qed
  moreover have "length (matches h') \<le> length (regex h)"
    using matches_bound [OF inv'] card_length [of "regex h'"] regex' by simp
  ultimately have keep: "length (matches h1) = length (regex h) \<Longrightarrow>
      length (matches h') = length (regex h)"
    by simp
  have "Console_run search (l # ls) h = Inr h'"
    using h1 run by simp
  moreover have "map_of (matches h') r =
        (case map_of (matches h) r of
           Some v \<Rightarrow> Some v
         | None \<Rightarrow> (if r \<in> set (regex h) then find (re_search compile search r) (l # ls)
                    else None))" for r
    unfolding lookup' [of r] lookup1 [of r]
    by (simp split: option.split)
  moreover have "state h' = Some ''passed'' \<longleftrightarrow>
        state h = Some ''passed'' \<or> l # ls \<noteq> [] \<and> length (matches h') = length (regex h)"
  proof (cases "ls = []")
    case True
    with run have "h' = h1" by simp
    then show ?thesis using st1 by auto
  next
    case False
    then show ?thesis using st' st1 keep by auto
  qed
  ultimately show ?case using inv' by blast
qed

subsection \<open>Evaluating concrete runs\<close>

lemmas run_defs = Console_session_def Console_configure_def Harness_configure_def Console_init_def
  Harness_init_def harness.extend_def mk_instance_def mk_config_def literal_compile_def
  literal_search_def Console_handle_def Console_match_def Console_report_def fault_scan_def
  coverage_scan_def FAULT_def GCOV_START_def GCOV_END_def Let_def Test_session_def
  Test_handle_def Test_banners_def Test_result_def result_re_match_def strip_prefix_def
  dot_star_def RUN_PASSED_def RUN_FAILED_def re_search_def

section \<open>The claims\<close>

subsection \<open>C1: how the verdict moves\<close>

text \<open>
  C1 says that a verdict, once passed or failed, never returns to running, that passed
  becomes failed only through the fault veto on the run-succeeded banner, and that failed
  never reverts. The structured-result harness does not keep the last two: after the
  run-failed banner has set \<^verbatim>\<open>"failed"\<close>, a later run-succeeded banner (with no fault
  recorded) sets \<^verbatim>\<open>"passed"\<close>.
\<close>

theorem verdict_monotonic_counterexample:
  "state (Test_session (mk_instance ''t'' [] None) [''PROJECT EXECUTION FAILED'']) = Some ''failed'' \<and>
   state (Test_session (mk_instance ''t'' [] None)
      [''PROJECT EXECUTION FAILED'', ''PROJECT EXECUTION SUCCESSFUL'']) = Some ''passed''"
  by code_simp

text \<open>
  C1, as the code has it. A verdict that is set is never unset. In the structured-result
  harness the verdict follows the banners: passed becomes failed only on a line with the
  run-failed banner or on a run-succeeded banner when a fault is recorded, and failed
  becomes passed only on a line with the run-succeeded banner, without the run-failed
  banner, when no fault is recorded. In the console harness, after a successful
  \<^verbatim>\<open>configure\<close>, every run returns, the verdict is never failed, and a verdict that is
  set stays as it is.
\<close>

theorem verdict_transitions:
  "(state h \<noteq> None \<longrightarrow> state (Test_run ls h) \<noteq> None) \<and>
   (state h = Some ''passed'' \<and> state (Test_handle l h) \<noteq> Some ''passed'' \<longrightarrow>
      state (Test_handle l h) = Some ''failed'' \<and>
      (str_in RUN_FAILED l \<or> str_in RUN_PASSED l \<and> fault h)) \<and>
   (state h = Some ''failed'' \<and> state (Test_handle l h) \<noteq> Some ''failed'' \<longrightarrow>
      state (Test_handle l h) = Some ''passed'' \<and>
      str_in RUN_PASSED l \<and> \<not> str_in RUN_FAILED l \<and> \<not> fault h) \<and>
   (Console_configure compile inst Console_init = Inr c0 \<and> Console_run search ks c0 = Inr c1 \<longrightarrow>
      state c1 \<noteq> Some ''failed'' \<and>
      (\<exists>c2. Console_run search ks' c1 = Inr c2 \<and> (state c1 \<noteq> None \<longrightarrow> state c2 = state c1)))"
proof (intro conjI impI)
  show "state (Test_run ls h) \<noteq> None" if "state h \<noteq> None"
    using that by (rule Test_run_running)
next
  assume "state h = Some ''passed'' \<and> state (Test_handle l h) \<noteq> Some ''passed''"
  then show "state (Test_handle l h) = Some ''failed''"
    and "str_in RUN_FAILED l \<or> str_in RUN_PASSED l \<and> fault h"
    by (auto simp: Test_handle_state split: if_splits)
next
  assume "state h = Some ''failed'' \<and> state (Test_handle l h) \<noteq> Some ''failed''"
  then show "state (Test_handle l h) = Some ''passed''" and "str_in RUN_PASSED l"
    and "\<not> str_in RUN_FAILED l" and "\<not> fault h"
    by (auto simp: Test_handle_state split: if_splits)
next
  assume a: "Console_configure compile inst Console_init = Inr c0 \<and> Console_run search ks c0 = Inr c1"
  then have cfg: "Console_configure compile inst Console_init = Inr c0"
    and run: "Console_run search ks c0 = Inr c1"
    by simp_all
  from Console_run_inv [OF Console_configure_inv [OF cfg], of search ks] run
  have inv1: "Console_inv compile c1"
    by auto
  then show "state c1 \<noteq> Some ''failed''"
    by (auto simp: Console_inv_def)
  from Console_run_inv [OF inv1, of search ks'] obtain c2 where
    c2: "Console_run search ks' c1 = Inr c2" and inv2: "Console_inv compile c2"
    by blast
  have "state c2 = state c1" if "state c1 \<noteq> None"
  proof -
    from that inv1 have "state c1 = Some ''passed''"
      by (auto simp: Console_inv_def)
    with Console_run_passed [OF c2] show ?thesis by simp
  qed
  with c2 show "\<exists>c2. Console_run search ks' c1 = Inr c2 \<and> (state c1 \<noteq> None \<longrightarrow> state c2 = state c1)"
    by blast
qed

theorem verdict_transitions_witness:
  "state (Test_session (mk_instance ''t'' [] None) [''PROJECT EXECUTION FAILED'']) \<noteq> None \<and>
   state (Test_run [''boot'']
     (Test_session (mk_instance ''t'' [] None) [''PROJECT EXECUTION FAILED''])) \<noteq> None \<and>
   state (Test_session (mk_instance ''t'' [] None) [''PROJECT EXECUTION SUCCESSFUL''])
     = Some ''passed'' \<and>
   state (Test_handle ''PROJECT EXECUTION FAILED''
     (Test_session (mk_instance ''t'' [] None) [''PROJECT EXECUTION SUCCESSFUL'']))
     = Some ''failed'' \<and>
   state (Test_handle ''PROJECT EXECUTION SUCCESSFUL''
     (Test_session (mk_instance ''t'' [] None) [''PROJECT EXECUTION FAILED'']))
     = Some ''passed'' \<and>
   (\<exists>c2. Console_run literal_search [''again'']
       (projr (Console_session literal_compile literal_search
          (mk_instance ''t'' [] (Some (mk_config ''one_line'' [''ok''] True))) [''ok''])) = Inr c2 \<and>
       state c2 = Some ''passed'')"
proof -
  let ?i = "mk_instance ''t'' [] None"
  let ?hF = "Test_session ?i [''PROJECT EXECUTION FAILED'']"
  let ?hP = "Test_session ?i [''PROJECT EXECUTION SUCCESSFUL'']"
  let ?ci = "mk_instance ''t'' [] (Some (mk_config ''one_line'' [''ok''] True))"
  let ?cfg = "projr (Console_configure literal_compile ?ci Console_init) :: string console"
  let ?ran = "projr (Console_session literal_compile literal_search ?ci [''ok'']) :: string console"
  have f: "state ?hF = Some ''failed''" by code_simp
  have p: "state ?hP = Some ''passed''" by code_simp
  have pf: "state (Test_handle ''PROJECT EXECUTION FAILED'' ?hP) \<noteq> Some ''passed''"
    by code_simp
  have fp: "state (Test_handle ''PROJECT EXECUTION SUCCESSFUL'' ?hF) \<noteq> Some ''failed''"
    by code_simp
  have c: "Console_configure literal_compile ?ci Console_init = Inr ?cfg \<and>
      Console_run literal_search [''ok''] ?cfg = Inr ?ran"
    by (simp add: run_defs)
  have c1: "state ?ran = Some ''passed''" by code_simp
  have n: "state ?hF \<noteq> None" using f by simp
  have r1: "state (Test_run [''boot''] ?hF) \<noteq> None"
    by (rule verdict_transitions [THEN conjunct1, THEN mp, OF n])
  have r2: "state (Test_handle ''PROJECT EXECUTION FAILED'' ?hP) = Some ''failed''"
    by (rule verdict_transitions [THEN conjunct2, THEN conjunct1, THEN mp,
          OF conjI [OF p pf], THEN conjunct1])
  have r3: "state (Test_handle ''PROJECT EXECUTION SUCCESSFUL'' ?hF) = Some ''passed''"
    by (rule verdict_transitions [THEN conjunct2, THEN conjunct2, THEN conjunct1, THEN mp,
          OF conjI [OF f fp], THEN conjunct1])
  note verdict_transitions [where ks' = "[''again'']", THEN conjunct2, THEN conjunct2,
      THEN conjunct2, THEN mp, OF c, THEN conjunct2]
  then obtain c2 where run: "Console_run literal_search [''again''] ?ran = Inr c2"
    and keep: "state ?ran \<noteq> None \<longrightarrow> state c2 = state ?ran"
    by (elim exE conjE)
  have "state c2 = Some ''passed''"
    using keep c1 by simp
  with run have r4: "\<exists>c2. Console_run literal_search [''again''] ?ran = Inr c2 \<and>
      state c2 = Some ''passed''"
    by (intro exI conjI)
  show ?thesis
    by (intro conjI n r1 p r2 r3 r4)
qed

subsection \<open>C2: the run-succeeded banner\<close>

text \<open>
  C2 says that a line with the run-succeeded banner sets the verdict to passed when no fault
  is recorded and to failed when one is, and that a fault marker followed by the banner
  yields failed. Two inputs escape it. A line that carries both banners ends failed with no
  fault recorded, because the run-failed check comes second and overrides. And under the
  \<^verbatim>\<open>ignore_faults\<close> tag the fault marker records nothing, so the banner that follows
  yields passed.
\<close>

theorem success_banner_counterexample:
  "\<not> fault (Test_session (mk_instance ''t'' [] None) []) \<and>
   str_in RUN_PASSED ''PROJECT EXECUTION SUCCESSFUL PROJECT EXECUTION FAILED'' \<and>
   state (Test_session (mk_instance ''t'' [] None)
      [''PROJECT EXECUTION SUCCESSFUL PROJECT EXECUTION FAILED'']) = Some ''failed'' \<and>
   str_in FAULT ''ZEPHYR FATAL ERROR'' \<and>
   state (Test_session (mk_instance ''t'' [''ignore_faults''] None)
      [''ZEPHYR FATAL ERROR'', ''PROJECT EXECUTION SUCCESSFUL'']) = Some ''passed''"
  by code_simp

text \<open>
  C2, as the code has it. After a line with the run-succeeded banner the verdict is passed
  exactly when no fault was recorded before the line and the line does not also carry the
  run-failed banner; otherwise it is failed. When the fault policy is active, a line with
  the fault marker followed by a line with the run-succeeded banner yields failed.
\<close>

theorem success_banner_verdict:
  assumes "str_in RUN_PASSED l"
  shows "state (Test_handle l h) =
           (if fault h \<or> str_in RUN_FAILED l then Some ''failed'' else Some ''passed'') \<and>
         (fail_on_fault h \<and> str_in FAULT l0 \<longrightarrow> state (Test_run [l0, l] h) = Some ''failed'')"
  using assms by (simp add: Test_handle_state Test_handle_fault)

theorem success_banner_verdict_witness:
  "state (Test_session (mk_instance ''t'' [] None) [''PROJECT EXECUTION SUCCESSFUL''])
     = Some ''passed'' \<and>
   state (Test_session (mk_instance ''t'' [] None)
      [''ZEPHYR FATAL ERROR'', ''PROJECT EXECUTION SUCCESSFUL'']) = Some ''failed''"
proof -
  let ?h = "Harness_configure (mk_instance ''t'' [] None) Harness_init"
  have banner: "str_in RUN_PASSED ''PROJECT EXECUTION SUCCESSFUL''" by code_simp
  have clean: "\<not> (fault ?h \<or> str_in RUN_FAILED ''PROJECT EXECUTION SUCCESSFUL'')" by code_simp
  have policy: "fail_on_fault ?h \<and> str_in FAULT ''ZEPHYR FATAL ERROR''" by code_simp
  note t = success_banner_verdict [OF banner, of ?h "''ZEPHYR FATAL ERROR''"]
  have "state (Test_handle ''PROJECT EXECUTION SUCCESSFUL'' ?h) = Some ''passed''"
    using t [THEN conjunct1] clean by (simp only: if_False)
  moreover have "state (Test_run [''ZEPHYR FATAL ERROR'', ''PROJECT EXECUTION SUCCESSFUL''] ?h)
      = Some ''failed''"
    by (rule t [THEN conjunct2, THEN mp, OF policy])
  ultimately show ?thesis
    by (simp only: Test_session_def Test_run.simps)
qed

subsection \<open>C10: fault marker and banner on one line\<close>

text \<open>
  C10 says that a line carrying both the fault marker and the run-succeeded banner, handled
  while no fault is recorded, leaves the verdict passed and records the fault. With the
  \<^verbatim>\<open>ignore_faults\<close> tag no fault is recorded, and when the line carries the run-failed
  banner as well the verdict is failed.
\<close>

theorem same_line_fault_counterexample:
  "str_in FAULT ''ZEPHYR FATAL ERROR PROJECT EXECUTION SUCCESSFUL'' \<and>
   str_in RUN_PASSED ''ZEPHYR FATAL ERROR PROJECT EXECUTION SUCCESSFUL'' \<and>
   \<not> fault (Test_session (mk_instance ''t'' [''ignore_faults''] None)
      [''ZEPHYR FATAL ERROR PROJECT EXECUTION SUCCESSFUL'']) \<and>
   str_in FAULT ''ZEPHYR FATAL ERROR PROJECT EXECUTION SUCCESSFUL PROJECT EXECUTION FAILED'' \<and>
   str_in RUN_PASSED ''ZEPHYR FATAL ERROR PROJECT EXECUTION SUCCESSFUL PROJECT EXECUTION FAILED'' \<and>
   state (Test_session (mk_instance ''t'' [] None)
      [''ZEPHYR FATAL ERROR PROJECT EXECUTION SUCCESSFUL PROJECT EXECUTION FAILED''])
     = Some ''failed''"
  by code_simp

text \<open>
  C10, as the code has it. A line with the fault marker and the run-succeeded banner and
  without the run-failed banner, handled while no fault is recorded, sets the verdict to
  passed: the fault scan comes after the banner checks, so the marker on the same line is no
  veto. The line records the fault exactly when the fault policy is active.
\<close>

theorem same_line_fault:
  assumes "\<not> fault h" "str_in FAULT l" "str_in RUN_PASSED l" "\<not> str_in RUN_FAILED l"
  shows "state (Test_handle l h) = Some ''passed'' \<and> fault (Test_handle l h) = fail_on_fault h"
  using assms by (simp add: Test_handle_state Test_handle_fault)

theorem same_line_fault_witness:
  "state (Test_session (mk_instance ''t'' [] None)
      [''ZEPHYR FATAL ERROR PROJECT EXECUTION SUCCESSFUL'']) = Some ''passed'' \<and>
   fault (Test_session (mk_instance ''t'' [] None)
      [''ZEPHYR FATAL ERROR PROJECT EXECUTION SUCCESSFUL''])"
proof -
  let ?h = "Harness_configure (mk_instance ''t'' [] None) Harness_init"
  let ?l = "''ZEPHYR FATAL ERROR PROJECT EXECUTION SUCCESSFUL''"
  have a: "\<not> fault ?h" by code_simp
  have b: "str_in FAULT ?l" by code_simp
  have c: "str_in RUN_PASSED ?l" by code_simp
  have d: "\<not> str_in RUN_FAILED ?l" by code_simp
  have e: "fail_on_fault ?h" by code_simp
  note t = same_line_fault [OF a b c d]
  have "state (Test_handle ?l ?h) = Some ''passed''"
    by (rule t [THEN conjunct1])
  moreover have "fault (Test_handle ?l ?h)"
    using t [THEN conjunct2] e by (simp only:)
  ultimately show ?thesis
    by (simp only: Test_session_def Test_run.simps)
qed

subsection \<open>C5: result lines\<close>

lemma first_alt_lit:
  assumes "lit \<in> {''PASS'', ''FAIL'', ''SKIP''}"
  shows "first_alt [''PASS'', ''FAIL'', ''SKIP''] (lit @ s) = Some (lit, s)"
  using assms by (auto simp: strip_prefix_def)

lemma result_re_match_grammar:
  assumes "lit \<in> {''PASS'', ''FAIL'', ''SKIP''}"
  shows "result_re_match (lit @ '' - test_'' @ rest) = Some (lit, dot_star rest)"
    and "\<not> startswith rest ''test_'' \<Longrightarrow>
      result_re_match (lit @ '' - '' @ rest) = Some (lit, dot_star rest)"
  unfolding result_re_match_def first_alt_lit [OF assms]
  by (simp_all add: strip_prefix_def)

text \<open>
  C5. A line that the result grammar matches, with group 1 \<open>lit\<close> and group 3 \<open>name\<close>,
  sets the entry \<^verbatim>\<open><id>.<name>\<close> of the results table to \<open>lit\<close>, whatever the entry was
  before, and changes no other entry. The grammar matches a line that starts with one of
  \<^verbatim>\<open>PASS\<close>, \<^verbatim>\<open>FAIL\<close>, \<^verbatim>\<open>SKIP\<close> followed by \<^verbatim>\<open>" - "\<close>; the name is the rest of
  the line, without a leading \<^verbatim>\<open>test_\<close>. With id \<^verbatim>\<open>suite1\<close>, the line
  \<^verbatim>\<open>PASS - test_foo\<close> writes \<^verbatim>\<open>PASS\<close> at \<^verbatim>\<open>suite1.foo\<close> and the line \<^verbatim>\<open>FAIL - bar\<close>
  writes \<^verbatim>\<open>FAIL\<close> at \<^verbatim>\<open>suite1.bar\<close>.
\<close>

theorem result_line_recorded:
  "(result_re_match l = Some (lit, name) \<longrightarrow>
      tests (Test_handle l h) = (tests h)(Some (format_id (id_h h) @ ''.'' @ name) \<mapsto> lit)) \<and>
   (lit \<in> {''PASS'', ''FAIL'', ''SKIP''} \<longrightarrow>
      result_re_match (lit @ '' - test_'' @ rest) = Some (lit, dot_star rest) \<and>
      (\<not> startswith rest ''test_'' \<longrightarrow>
         result_re_match (lit @ '' - '' @ rest) = Some (lit, dot_star rest))) \<and>
   (id_h h = Some ''suite1'' \<longrightarrow>
      tests (Test_handle ''PASS - test_foo'' h) (Some ''suite1.foo'') = Some ''PASS'' \<and>
      tests (Test_handle ''FAIL - bar'' h) (Some ''suite1.bar'') = Some ''FAIL'')"
proof (intro conjI impI)
  assume "result_re_match l = Some (lit, name)"
  then show "tests (Test_handle l h) = (tests h)(Some (format_id (id_h h) @ ''.'' @ name) \<mapsto> lit)"
    by (simp add: Test_handle_tests)
next
  assume "lit \<in> {''PASS'', ''FAIL'', ''SKIP''}"
  then show "result_re_match (lit @ '' - test_'' @ rest) = Some (lit, dot_star rest)"
    by (rule result_re_match_grammar)
next
  assume "lit \<in> {''PASS'', ''FAIL'', ''SKIP''}" "\<not> startswith rest ''test_''"
  then show "result_re_match (lit @ '' - '' @ rest) = Some (lit, dot_star rest)"
    by (rule result_re_match_grammar)
next
  have m: "result_re_match ''PASS - test_foo'' = Some (''PASS'', ''foo'')" by code_simp
  assume "id_h h = Some ''suite1''"
  then show "tests (Test_handle ''PASS - test_foo'' h) (Some ''suite1.foo'') = Some ''PASS''"
    by (simp add: Test_handle_tests m)
next
  have m: "result_re_match ''FAIL - bar'' = Some (''FAIL'', ''bar'')" by code_simp
  assume "id_h h = Some ''suite1''"
  then show "tests (Test_handle ''FAIL - bar'' h) (Some ''suite1.bar'') = Some ''FAIL''"
    by (simp add: Test_handle_tests m)
qed

theorem result_line_recorded_witness:
  "tests (Test_session (mk_instance ''suite1'' [] None) [''FAIL - net''])
      (Some ''suite1.net'') = Some ''FAIL'' \<and>
   tests (Test_handle ''SKIP - test_net''
      (Test_session (mk_instance ''suite1'' [] None) [''FAIL - net'']))
      (Some ''suite1.net'') = Some ''SKIP'' \<and>
   result_re_match (''SKIP'' @ '' - '' @ ''net up'') = Some (''SKIP'', dot_star ''net up'') \<and>
   tests (Test_handle ''PASS - test_foo'' (Test_session (mk_instance ''suite1'' [] None) []))
      (Some ''suite1.foo'') = Some ''PASS'' \<and>
   tests (Test_handle ''FAIL - bar'' (Test_session (mk_instance ''suite1'' [] None) []))
      (Some ''suite1.bar'') = Some ''FAIL''"
proof -
  let ?i = "mk_instance ''suite1'' [] None"
  let ?h = "Test_session ?i [''FAIL - net'']"
  let ?fresh = "Test_session ?i []"
  have before: "tests ?h (Some ''suite1.net'') = Some ''FAIL''"
    by (simp add: run_defs)
  have parse: "result_re_match ''SKIP - test_net'' = Some (''SKIP'', ''net'')" by code_simp
  have key: "format_id (id_h ?h) @ ''.'' @ ''net'' = ''suite1.net''" by code_simp
  have "tests (Test_handle ''SKIP - test_net'' ?h) =
      (tests ?h)(Some (format_id (id_h ?h) @ ''.'' @ ''net'') \<mapsto> ''SKIP'')"
    by (rule result_line_recorded [THEN conjunct1, THEN mp, OF parse])
  then have after: "tests (Test_handle ''SKIP - test_net'' ?h) (Some ''suite1.net'') = Some ''SKIP''"
    by (simp only: key fun_upd_same)
  have lit: "''SKIP'' \<in> {''PASS'', ''FAIL'', ''SKIP''}" by simp
  have plain: "\<not> startswith ''net up'' ''test_''" by code_simp
  have grammar: "result_re_match (''SKIP'' @ '' - '' @ ''net up'') = Some (''SKIP'', dot_star ''net up'')"
    by (rule result_line_recorded [THEN conjunct2, THEN conjunct1, THEN mp, OF lit,
          THEN conjunct2, THEN mp, OF plain])
  have id0: "id_h ?fresh = Some ''suite1''" by code_simp
  note ex = result_line_recorded [THEN conjunct2, THEN conjunct2, THEN mp, OF id0]
  show ?thesis
    by (intro conjI before after grammar ex [THEN conjunct1] ex [THEN conjunct2])
qed

subsection \<open>C8: the \<^verbatim>\<open>ignore_faults\<close> tag\<close>

lemma Test_run_banners:
  assumes "\<not> fail_on_fault h" "\<not> fault h"
  shows "state (Test_run ls h) =
     foldl (\<lambda>v l. if str_in RUN_FAILED l then Some ''failed''
                   else if str_in RUN_PASSED l then Some ''passed'' else v) (state h) ls"
  using assms
proof (induction ls arbitrary: h)
  case Nil
  then show ?case by simp
next
  case (Cons l ls)
  have "\<not> fail_on_fault (Test_handle l h)" "\<not> fault (Test_handle l h)"
    using Cons.prems by (simp_all add: Test_handle_fault)
  from Cons.IH [OF this] Cons.prems(2) show ?case
    by (simp add: Test_handle_state)
qed

lemma Console_session_run:
  "Console_configure compile inst Console_init = Inr c \<Longrightarrow>
     Console_session compile search inst ls = Console_run search ls c"
  by (simp add: Console_session_def)

text \<open>
  C8. When the tags of the test contain \<^verbatim>\<open>ignore_faults\<close>, \<^verbatim>\<open>configure\<close> turns the fault
  policy off, and then no sequence of lines records a fault, in either harness. The verdict
  of the structured-result harness is then decided by the banners alone: it is what the
  last line carrying a banner says, the run-failed banner winning on a line that has both.
  A console run after a successful \<^verbatim>\<open>configure\<close> returns with no fault recorded (the
  console harness never reads the flag).
\<close>

theorem ignore_faults_tag:
  assumes "''ignore_faults'' \<in> set (tags (test inst))"
  shows "\<not> fail_on_fault (Harness_configure inst Harness_init) \<and>
     \<not> fault (Test_session inst ls) \<and>
     state (Test_session inst ls) =
       foldl (\<lambda>v l. if str_in RUN_FAILED l then Some ''failed''
                     else if str_in RUN_PASSED l then Some ''passed'' else v) None ls \<and>
     (Console_configure compile inst Console_init = Inr c \<longrightarrow>
        \<not> fail_on_fault c \<and> (\<exists>c'. Console_run search ls c = Inr c' \<and> \<not> fault c'))"
proof -
  let ?h = "Harness_configure inst Harness_init"
  have off: "\<not> fail_on_fault ?h" using assms by simp
  have clean: "\<not> fault ?h" by (simp add: Harness_init_def)
  have unset: "state ?h = None" by (simp add: Harness_init_def)
  have "\<not> fault (Test_session inst ls)"
    unfolding Test_session_def using off clean by (rule Test_run_no_fault)
  moreover have "state (Test_session inst ls) =
       foldl (\<lambda>v l. if str_in RUN_FAILED l then Some ''failed''
                     else if str_in RUN_PASSED l then Some ''passed'' else v) None ls"
    unfolding Test_session_def Test_run_banners [OF off clean] unset ..
  moreover have "\<not> fail_on_fault c \<and> (\<exists>c'. Console_run search ls c = Inr c' \<and> \<not> fault c')"
    if cfg: "Console_configure compile inst Console_init = Inr c"
  proof -
    note f = Console_configure_fields [OF cfg]
    have c_off: "\<not> fail_on_fault c" using f assms by simp
    have c_clean: "\<not> fault c" using f by simp
    from Console_run_inv [OF Console_configure_inv [OF cfg], of search ls]
    obtain c' where run: "Console_run search ls c = Inr c'" by blast
    from Console_run_no_fault [OF run c_off c_clean] run c_off show ?thesis by blast
  qed
  ultimately show ?thesis using off by blast
qed

theorem ignore_faults_tag_witness:
  "\<not> fault (Test_session (mk_instance ''t'' [''slow'', ''ignore_faults''] None)
      [''ZEPHYR FATAL ERROR'', ''PROJECT EXECUTION SUCCESSFUL'']) \<and>
   state (Test_session (mk_instance ''t'' [''slow'', ''ignore_faults''] None)
      [''ZEPHYR FATAL ERROR'', ''PROJECT EXECUTION SUCCESSFUL'']) = Some ''passed'' \<and>
   (\<exists>c'. Console_session literal_compile literal_search
       (mk_instance ''t'' [''slow'', ''ignore_faults''] (Some (mk_config ''one_line'' [''ok''] True)))
       [''ZEPHYR FATAL ERROR'', ''ok''] = Inr c' \<and> \<not> fault c')"
proof -
  let ?i = "mk_instance ''t'' [''slow'', ''ignore_faults''] None"
  let ?j = "mk_instance ''t'' [''slow'', ''ignore_faults''] (Some (mk_config ''one_line'' [''ok''] True))"
  let ?ls = "[''ZEPHYR FATAL ERROR'', ''PROJECT EXECUTION SUCCESSFUL'']"
  let ?c = "projr (Console_configure literal_compile ?j Console_init) :: string console"
  have tag_i: "''ignore_faults'' \<in> set (tags (test ?i))" by code_simp
  have tag_j: "''ignore_faults'' \<in> set (tags (test ?j))" by code_simp
  have banners: "foldl (\<lambda>v l. if str_in RUN_FAILED l then Some ''failed''
                     else if str_in RUN_PASSED l then Some ''passed'' else v) None ?ls
      = Some ''passed''"
    by code_simp
  have cfg: "Console_configure literal_compile ?j Console_init = Inr ?c"
    by (simp add: run_defs)
  note t = ignore_faults_tag [OF tag_i, of ?ls]
  have a: "\<not> fault (Test_session ?i ?ls)"
    by (rule t [THEN conjunct2, THEN conjunct1])
  have b: "state (Test_session ?i ?ls) = Some ''passed''"
    using t [THEN conjunct2, THEN conjunct2, THEN conjunct1] banners by (simp only:)
  from ignore_faults_tag [OF tag_j, where ls = "[''ZEPHYR FATAL ERROR'', ''ok'']"
      and search = literal_search,
      THEN conjunct2, THEN conjunct2, THEN conjunct2, THEN mp, OF cfg, THEN conjunct2]
  obtain c' where run: "Console_run literal_search [''ZEPHYR FATAL ERROR'', ''ok''] ?c = Inr c'"
    and nf: "\<not> fault c'"
    by (elim exE conjE)
  have "Console_session literal_compile literal_search ?j [''ZEPHYR FATAL ERROR'', ''ok''] = Inr c'"
    using run by (simp only: Console_session_run [OF cfg])
  with nf have c: "\<exists>c'. Console_session literal_compile literal_search ?j
      [''ZEPHYR FATAL ERROR'', ''ok''] = Inr c' \<and> \<not> fault c'"
    by (intro exI conjI)
  show ?thesis by (intro conjI a b c)
qed

subsection \<open>C3: ordered multi-line mode\<close>

lemma Console_handle_ordered:
  assumes "type h = Some ''multi_line''" "ordered h" "patterns h = Some ps"
  shows "\<exists>h'. Console_handle search l h = Inr h' \<and>
     (if next_pattern h < length ps \<and> search (ps ! next_pattern h) l
      then next_pattern h' = next_pattern h + 1 \<and>
           state h' = (if next_pattern h' = length ps then Some ''passed'' else state h)
      else next_pattern h' = next_pattern h \<and> state h' = state h)"
  using assms by (auto simp: Console_handle_def Console_match_def Let_def)

text \<open>
  C3. In ordered multi-line mode \<^verbatim>\<open>handle\<close> returns, and a line that the pattern at the
  cursor matches advances the cursor by one and sets the verdict to passed exactly when the
  cursor has then reached the number of patterns; any other line, one matching only a later
  pattern included, leaves cursor and verdict as they were. With the two expressions
  \<open>a\<close>, \<open>b\<close> configured, a line matching \<open>a\<close> followed by a line matching \<open>b\<close> ends
  with the verdict passed.
\<close>

theorem ordered_mode_cursor:
  "(type h = Some ''multi_line'' \<and> ordered h \<and> patterns h = Some ps \<longrightarrow>
      (\<exists>h'. Console_handle search l h = Inr h' \<and>
         (if next_pattern h < length ps \<and> search (ps ! next_pattern h) l
          then next_pattern h' = next_pattern h + 1 \<and>
               state h' = (if next_pattern h' = length ps then Some ''passed'' else state h)
          else next_pattern h' = next_pattern h \<and> state h' = state h))) \<and>
   (Console_configure compile inst Console_init = Inr c \<and> type c = Some ''multi_line'' \<and>
    ordered c \<and> regex c = [a, b] \<and>
    re_search compile search a l1 \<and> re_search compile search b l2 \<longrightarrow>
      (\<exists>c'. Console_run search [l1, l2] c = Inr c' \<and> state c' = Some ''passed''))"
proof (intro conjI impI)
  assume "type h = Some ''multi_line'' \<and> ordered h \<and> patterns h = Some ps"
  then show "\<exists>h'. Console_handle search l h = Inr h' \<and>
         (if next_pattern h < length ps \<and> search (ps ! next_pattern h) l
          then next_pattern h' = next_pattern h + 1 \<and>
               state h' = (if next_pattern h' = length ps then Some ''passed'' else state h)
          else next_pattern h' = next_pattern h \<and> state h' = state h)"
    using Console_handle_ordered [of h ps search l] by blast
next
  assume a: "Console_configure compile inst Console_init = Inr c \<and> type c = Some ''multi_line'' \<and>
    ordered c \<and> regex c = [a, b] \<and>
    re_search compile search a l1 \<and> re_search compile search b l2"
  then have cfg: "Console_configure compile inst Console_init = Inr c"
    and multi: "type c = Some ''multi_line''" and ord: "ordered c" and rs: "regex c = [a, b]"
    and ma: "re_search compile search a l1" and mb: "re_search compile search b l2"
    by simp_all
  from Console_configure_inv [OF cfg] multi rs obtain ps where
    ps: "patterns c = Some ps" and comp: "map compile [a, b] = map Some ps"
    by (auto simp: Console_inv_def)
  from comp obtain pa pb where ps2: "ps = [pa, pb]" and ca: "compile a = Some pa"
    and cb: "compile b = Some pb"
    by (cases ps; cases "tl ps") auto
  have sa: "search pa l1" and sb: "search pb l2"
    using ma mb ca cb by (simp_all add: re_search_def)
  have start: "next_pattern c = 0"
    using Console_configure_fields [OF cfg] by simp
  from Console_handle_ordered [OF multi ord ps, of search l1] start sa obtain c1 where
    h1: "Console_handle search l1 c = Inr c1" and n1: "next_pattern c1 = 1"
    by (auto simp: ps2)
  note f1 = Console_handle_fields [OF h1]
  have "type c1 = Some ''multi_line''" "ordered c1" "patterns c1 = Some ps"
    using f1 multi ord ps by simp_all
  from Console_handle_ordered [OF this, of search l2] n1 sb obtain c2 where
    h2: "Console_handle search l2 c1 = Inr c2" and "state c2 = Some ''passed''"
    by (auto simp: ps2)
  then show "\<exists>c'. Console_run search [l1, l2] c = Inr c' \<and> state c' = Some ''passed''"
    using h1 by simp
qed

theorem ordered_mode_cursor_witness:
  "(\<exists>h'. Console_handle literal_search ''beta ready''
       (projr (Console_configure literal_compile
          (mk_instance ''t'' [] (Some (mk_config ''multi_line'' [''alpha'', ''beta''] True)))
          Console_init)) = Inr h' \<and>
       next_pattern h' = 0 \<and> state h' = None) \<and>
   (\<exists>h'. Console_handle literal_search ''alpha ready''
       (projr (Console_configure literal_compile
          (mk_instance ''t'' [] (Some (mk_config ''multi_line'' [''alpha'', ''beta''] True)))
          Console_init)) = Inr h' \<and>
       next_pattern h' = 1 \<and> state h' = None) \<and>
   (\<exists>c'. Console_session literal_compile literal_search
       (mk_instance ''t'' [] (Some (mk_config ''multi_line'' [''alpha'', ''beta''] True)))
       [''alpha ready'', ''beta ready''] = Inr c' \<and> state c' = Some ''passed'')"
proof -
  let ?i = "mk_instance ''t'' [] (Some (mk_config ''multi_line'' [''alpha'', ''beta''] True))"
  let ?c = "projr (Console_configure literal_compile ?i Console_init) :: string console"
  let ?ps = "[''alpha'', ''beta'']"
  have cfg: "Console_configure literal_compile ?i Console_init = Inr ?c"
    by (simp add: run_defs)
  have mode: "type ?c = Some ''multi_line'' \<and> ordered ?c \<and> patterns ?c = Some ?ps"
    by (simp add: run_defs)
  have start: "next_pattern ?c = 0" "state ?c = None"
    by (simp_all add: run_defs)
  have later: "\<not> (0 < length ?ps \<and> literal_search (?ps ! 0) ''beta ready'')"
    by code_simp
  have turn: "0 < length ?ps \<and> literal_search (?ps ! 0) ''alpha ready''"
    by code_simp
  have more: "0 + 1 \<noteq> length ?ps" by simp
  have a: "\<exists>h'. Console_handle literal_search ''beta ready'' ?c = Inr h' \<and>
      next_pattern h' = 0 \<and> state h' = None"
    using ordered_mode_cursor [THEN conjunct1, THEN mp, OF mode, of literal_search "''beta ready''"]
    unfolding start if_not_P [OF later] .
  have "\<exists>h'. Console_handle literal_search ''alpha ready'' ?c = Inr h' \<and>
      next_pattern h' = 0 + 1 \<and>
      state h' = (if next_pattern h' = length ?ps then Some ''passed'' else None)"
    using ordered_mode_cursor [THEN conjunct1, THEN mp, OF mode, of literal_search "''alpha ready''"]
    unfolding start if_P [OF turn] .
  then have b: "\<exists>h'. Console_handle literal_search ''alpha ready'' ?c = Inr h' \<and>
      next_pattern h' = 1 \<and> state h' = None"
    by auto
  have scenario: "Console_configure literal_compile ?i Console_init = Inr ?c \<and>
      type ?c = Some ''multi_line'' \<and> ordered ?c \<and> regex ?c = [''alpha'', ''beta''] \<and>
      re_search literal_compile literal_search ''alpha'' ''alpha ready'' \<and>
      re_search literal_compile literal_search ''beta'' ''beta ready''"
    by (simp add: run_defs)
  have c: "\<exists>c'. Console_session literal_compile literal_search ?i
      [''alpha ready'', ''beta ready''] = Inr c' \<and> state c' = Some ''passed''"
    using ordered_mode_cursor [THEN conjunct2, THEN mp, OF scenario]
    by (simp only: Console_session_run [OF cfg])
  show ?thesis by (intro conjI a b c)
qed

subsection \<open>C6: the console entry of the results table\<close>

text \<open>
  C6. Whenever the console \<^verbatim>\<open>handle\<close> returns, it has written the entry of the harness
  id: \<^verbatim>\<open>PASS\<close> if the verdict is then passed and \<^verbatim>\<open>FAIL\<close> otherwise, so that an unset
  verdict and any verdict other than passed give the same entry. After a successful
  \<^verbatim>\<open>configure\<close> every call does return, whatever lines came before, and the id is the
  one of the test.
\<close>

theorem console_report_entry:
  "(Console_handle search l h = Inr h' \<longrightarrow>
      id_h h' = id_h h \<and>
      tests h' (id_h h) = Some (if state h' = Some ''passed'' then ''PASS'' else ''FAIL'')) \<and>
   (Console_configure compile inst Console_init = Inr c \<longrightarrow>
      (\<exists>c1 c2. Console_run search ls c = Inr c1 \<and> Console_handle search l c1 = Inr c2 \<and>
         id_h c2 = Some (test_id (test inst)) \<and>
         tests c2 (Some (test_id (test inst))) =
           Some (if state c2 = Some ''passed'' then ''PASS'' else ''FAIL'')))"
proof (intro conjI impI)
  assume h': "Console_handle search l h = Inr h'"
  note f = Console_handle_fields [OF h']
  show "id_h h' = id_h h" by (rule f)
  show "tests h' (id_h h) = Some (if state h' = Some ''passed'' then ''PASS'' else ''FAIL'')"
    unfolding f(9) by simp
next
  assume cfg: "Console_configure compile inst Console_init = Inr c"
  from Console_run_inv [OF Console_configure_inv [OF cfg], of search ls] obtain c1 where
    run: "Console_run search ls c = Inr c1" and inv: "Console_inv compile c1"
    by blast
  from Console_handle_inv [OF inv, of search l] obtain c2 where
    step: "Console_handle search l c1 = Inr c2"
    by blast
  note f = Console_handle_fields [OF step]
  have id1: "id_h c1 = Some (test_id (test inst))"
    using Console_run_fields [OF run] Console_configure_fields [OF cfg] by simp
  have "id_h c2 = Some (test_id (test inst))"
    using f id1 by simp
  moreover have "tests c2 (Some (test_id (test inst))) =
      Some (if state c2 = Some ''passed'' then ''PASS'' else ''FAIL'')"
    unfolding f(9) id1 by simp
  ultimately show "\<exists>c1 c2. Console_run search ls c = Inr c1 \<and> Console_handle search l c1 = Inr c2 \<and>
         id_h c2 = Some (test_id (test inst)) \<and>
         tests c2 (Some (test_id (test inst))) =
           Some (if state c2 = Some ''passed'' then ''PASS'' else ''FAIL'')"
    using run step by blast
qed

theorem console_report_entry_witness:
  "(\<exists>c2. Console_session literal_compile literal_search
       (mk_instance ''t'' [] (Some (mk_config ''one_line'' [''ok''] True)))
       [''boot'', ''more''] = Inr c2 \<and> tests c2 (Some ''t'') = Some ''FAIL'') \<and>
   (\<exists>c2. Console_session literal_compile literal_search
       (mk_instance ''t'' [] (Some (mk_config ''one_line'' [''ok''] True)))
       [''boot'', ''ok''] = Inr c2 \<and> tests c2 (Some ''t'') = Some ''PASS'')"
proof -
  let ?i = "mk_instance ''t'' [] (Some (mk_config ''one_line'' [''ok''] True))"
  let ?c = "projr (Console_configure literal_compile ?i Console_init) :: string console"
  have cfg: "Console_configure literal_compile ?i Console_init = Inr ?c"
    by (simp add: run_defs)
  have name: "test_id (test ?i) = ''t''"
    by (simp add: mk_instance_def)
  have entry: "\<exists>c2. Console_session literal_compile literal_search ?i [''boot'', l] = Inr c2 \<and>
      tests c2 (Some ''t'') = Some (if state c2 = Some ''passed'' then ''PASS'' else ''FAIL'')" for l
  proof -
    from console_report_entry [THEN conjunct2, THEN mp, OF cfg, of literal_search "[''boot'']" l]
    obtain c1 c2 where run: "Console_run literal_search [''boot''] ?c = Inr c1"
      and step: "Console_handle literal_search l c1 = Inr c2"
      and written: "tests c2 (Some (test_id (test ?i))) =
        Some (if state c2 = Some ''passed'' then ''PASS'' else ''FAIL'')"
      by (elim exE conjE)
    from run have "Console_handle literal_search ''boot'' ?c = Inr c1"
      by (simp split: sum.splits)
    with step have "Console_run literal_search [''boot'', l] ?c = Inr c2"
      by simp
    then have "Console_session literal_compile literal_search ?i [''boot'', l] = Inr c2"
      by (simp only: Console_session_run [OF cfg])
    with written [unfolded name] show ?thesis
      by (intro exI conjI)
  qed
  have running: "state (projr (Console_session literal_compile literal_search ?i
      [''boot'', ''more''])) = None"
    by (simp add: run_defs)
  have passed: "state (projr (Console_session literal_compile literal_search ?i
      [''boot'', ''ok''])) = Some ''passed''"
    by (simp add: run_defs)
  from entry [of "''more''"] obtain c2 where
    s: "Console_session literal_compile literal_search ?i [''boot'', ''more''] = Inr c2"
    and e: "tests c2 (Some ''t'') = Some (if state c2 = Some ''passed'' then ''PASS'' else ''FAIL'')"
    by (elim exE conjE)
  from running [unfolded s sum.sel] e have "tests c2 (Some ''t'') = Some ''FAIL''"
    by simp
  with s have a: "\<exists>c2. Console_session literal_compile literal_search ?i
      [''boot'', ''more''] = Inr c2 \<and> tests c2 (Some ''t'') = Some ''FAIL''"
    by (intro exI conjI)
  from entry [of "''ok''"] obtain c3 where
    s3: "Console_session literal_compile literal_search ?i [''boot'', ''ok''] = Inr c3"
    and e3: "tests c3 (Some ''t'') = Some (if state c3 = Some ''passed'' then ''PASS'' else ''FAIL'')"
    by (elim exE conjE)
  from passed [unfolded s3 sum.sel] e3 have "tests c3 (Some ''t'') = Some ''PASS''"
    by simp
  with s3 have b: "\<exists>c2. Console_session literal_compile literal_search ?i
      [''boot'', ''ok''] = Inr c2 \<and> tests c2 (Some ''t'') = Some ''PASS''"
    by (intro exI conjI)
  show ?thesis by (intro conjI a b)
qed

subsection \<open>C7: configuring single-line mode\<close>

text \<open>
  C7 says that \<^verbatim>\<open>configure\<close> in single-line mode fails on an empty pattern list and
  succeeds on a non-empty one. It does not succeed when the first expression does not
  compile: the error of \<^verbatim>\<open>re.compile\<close> leaves \<^verbatim>\<open>configure\<close>.
\<close>

theorem one_line_configure_counterexample:
  "Console_configure literal_compile
     (mk_instance ''t'' [] (Some (mk_config ''one_line'' [''(''] True))) Console_init
   = Inl RegexError"
  by (simp add: run_defs)

text \<open>
  C7, as the code has it. In single-line mode \<^verbatim>\<open>configure\<close> raises \<^verbatim>\<open>IndexError\<close> when
  the pattern list is empty or absent. When the list is \<open>r # rs\<close>, the outcome is that of
  compiling \<open>r\<close> alone: the error of \<^verbatim>\<open>re.compile\<close> if \<open>r\<close> does not compile, and
  otherwise success with the compiled \<open>r\<close> stored as the pattern; \<open>rs\<close> is never compiled.
\<close>

theorem one_line_configure:
  assumes "harness_config (test inst) = Some cf" "cfg_type cf = Some ''one_line''"
  shows "(cfg_regex cf = None \<or> cfg_regex cf = Some [] \<longrightarrow>
            Console_configure compile inst h = Inl IndexError) \<and>
         (cfg_regex cf = Some (r # rs) \<longrightarrow>
            Console_configure compile inst h =
              (case compile r of
                 None \<Rightarrow> Inl RegexError
               | Some p \<Rightarrow> Inr ((Harness_configure inst h)\<lparr>pattern := Some p\<rparr>)))"
  using assms
  by (auto simp: Console_configure_def Harness_configure_def Let_def split: option.splits)

theorem one_line_configure_witness:
  "Console_configure literal_compile
     (mk_instance ''t'' [] (Some (mk_config ''one_line'' [] True))) Console_init
     = Inl IndexError \<and>
   (\<exists>c. Console_configure literal_compile
      (mk_instance ''t'' [] (Some (mk_config ''one_line'' [''ok'', ''(''] True))) Console_init
      = Inr c \<and> pattern c = Some ''ok'')"
proof -
  let ?e = "mk_config ''one_line'' [] True"
  let ?f = "mk_config ''one_line'' [''ok'', ''(''] True"
  have e: "harness_config (test (mk_instance ''t'' [] (Some ?e))) = Some ?e"
    "cfg_type ?e = Some ''one_line''"
    by (simp_all add: mk_instance_def mk_config_def)
  have f: "harness_config (test (mk_instance ''t'' [] (Some ?f))) = Some ?f"
    "cfg_type ?f = Some ''one_line''"
    by (simp_all add: mk_instance_def mk_config_def)
  have empty: "cfg_regex ?e = None \<or> cfg_regex ?e = Some []"
    by (simp add: mk_config_def)
  have two: "cfg_regex ?f = Some [''ok'', ''('']"
    by (simp add: mk_config_def)
  have first: "literal_compile ''ok'' = Some ''ok''"
    by (simp add: literal_compile_def)
  have a: "Console_configure literal_compile (mk_instance ''t'' [] (Some ?e)) Console_init
      = Inl IndexError"
    by (rule one_line_configure [OF e, THEN conjunct1, THEN mp, OF empty])
  have "Console_configure literal_compile (mk_instance ''t'' [] (Some ?f)) Console_init
      = Inr ((Harness_configure (mk_instance ''t'' [] (Some ?f)) Console_init)
               \<lparr>pattern := Some ''ok''\<rparr>)"
    using one_line_configure [OF f, THEN conjunct2, THEN mp, OF two, of literal_compile Console_init]
    by (simp only: first option.case)
  then have b: "\<exists>c. Console_configure literal_compile (mk_instance ''t'' [] (Some ?f))
      Console_init = Inr c \<and> pattern c = Some ''ok''"
    by simp
  show ?thesis by (intro conjI a b)
qed

subsection \<open>C9: the same expression configured twice\<close>

text \<open>
  C9. In unordered multi-line mode, when the configured list holds the same expression more
  than once, every run after a successful \<^verbatim>\<open>configure\<close> returns with fewer recorded
  matches than configured expressions, and the verdict is never passed: \<open>matches\<close> is keyed
  by the source of the expression, and its size is compared with the length of the list.
\<close>

theorem duplicate_patterns_never_pass:
  assumes cfg: "Console_configure compile inst Console_init = Inr c"
    and multi: "type c = Some ''multi_line''" and unordered: "\<not> ordered c"
    and dup: "\<not> distinct (regex c)"
  shows "\<exists>c'. Console_run search ls c = Inr c' \<and>
     length (matches c') < length (regex c) \<and> state c' \<noteq> Some ''passed''"
proof -
  note f = Console_configure_fields [OF cfg]
  from unordered_run [OF Console_configure_inv [OF cfg] multi unordered, of search ls]
  obtain c' where run: "Console_run search ls c = Inr c'" and inv: "Console_inv compile c'"
    and st: "state c' = Some ''passed'' \<longleftrightarrow>
        state c = Some ''passed'' \<or> ls \<noteq> [] \<and> length (matches c') = length (regex c)"
    by blast
  have same: "regex c' = regex c"
    using Console_run_fields [OF run] by simp
  have "card (set (regex c)) \<noteq> length (regex c)"
    using dup card_distinct by blast
  with card_length [of "regex c"] have "card (set (regex c)) < length (regex c)"
    by simp
  with matches_bound [OF inv] same have short: "length (matches c') < length (regex c)"
    by simp
  moreover have "state c' \<noteq> Some ''passed''"
    using st short f by simp
  ultimately show ?thesis using run by blast
qed

theorem duplicate_patterns_never_pass_witness:
  "\<exists>c'. Console_session literal_compile literal_search
      (mk_instance ''t'' [] (Some (mk_config ''multi_line'' [''up'', ''up''] False)))
      [''link up'', ''link up''] = Inr c' \<and>
      length (matches c') < 2 \<and> state c' \<noteq> Some ''passed''"
proof -
  let ?i = "mk_instance ''t'' [] (Some (mk_config ''multi_line'' [''up'', ''up''] False))"
  let ?c = "projr (Console_configure literal_compile ?i Console_init) :: string console"
  have cfg: "Console_configure literal_compile ?i Console_init = Inr ?c"
    by (simp add: run_defs)
  have multi: "type ?c = Some ''multi_line''" and unordered: "\<not> ordered ?c"
    and rs: "regex ?c = [''up'', ''up'']"
    by (simp_all add: run_defs)
  have dup: "\<not> distinct (regex ?c)"
    unfolding rs by simp
  have two: "length [''up'', ''up''] = 2"
    by simp
  note t = duplicate_patterns_never_pass [OF cfg multi unordered dup, of literal_search
      "[''link up'', ''link up'']"]
  show ?thesis
    using t unfolding rs two by (simp only: Console_session_run [OF cfg])
qed

subsection \<open>C4: unordered multi-line mode\<close>

lemma find_Some_ex: "find P xs \<noteq> None \<longleftrightarrow> (\<exists>x\<in>set xs. P x)"
  by (auto simp: find_None_iff)

text \<open>
  C4 says that the verdict becomes passed exactly when every configured pattern has been
  matched at least once. With the list \<^verbatim>\<open>["up", "up"]\<close> the line \<^verbatim>\<open>link up\<close> matches every
  configured pattern, and the verdict stays unset.
\<close>

theorem unordered_mode_counterexample:
  "re_search literal_compile literal_search ''up'' ''link up'' \<and>
   map_sum id state (Console_session literal_compile literal_search
      (mk_instance ''t'' [] (Some (mk_config ''multi_line'' [''up'', ''up''] False)))
      [''link up'']) = Inr None"
  by (simp add: run_defs)

text \<open>
  C4, as the code has it. After a successful \<^verbatim>\<open>configure\<close> in unordered multi-line mode
  every run returns, and \<open>matches\<close> then holds, for each configured expression, the first
  line of the run that it matches (none if there is no such line), and nothing else. When
  the configured expressions are pairwise distinct, the verdict is passed exactly when at
  least one line has been handled and every configured expression matches some line of the
  run, in whatever order the lines came.
\<close>

theorem unordered_mode:
  assumes cfg: "Console_configure compile inst Console_init = Inr c"
    and multi: "type c = Some ''multi_line''" and unordered: "\<not> ordered c"
  shows "\<exists>c'. Console_run search ls c = Inr c' \<and>
     (\<forall>r. map_of (matches c') r =
        (if r \<in> set (regex c) then find (re_search compile search r) ls else None)) \<and>
     (distinct (regex c) \<longrightarrow>
        (state c' = Some ''passed'' \<longleftrightarrow>
           ls \<noteq> [] \<and> (\<forall>r\<in>set (regex c). \<exists>l\<in>set ls. re_search compile search r l)))"
proof -
  note f = Console_configure_fields [OF cfg]
  from unordered_run [OF Console_configure_inv [OF cfg] multi unordered, of search ls]
  obtain c' where run: "Console_run search ls c = Inr c'" and inv: "Console_inv compile c'"
    and lookup0: "\<forall>r. map_of (matches c') r =
        (case map_of (matches c) r of
           Some v \<Rightarrow> Some v
         | None \<Rightarrow> (if r \<in> set (regex c) then find (re_search compile search r) ls
                    else None))"
    and st: "state c' = Some ''passed'' \<longleftrightarrow>
        state c = Some ''passed'' \<or> ls \<noteq> [] \<and> length (matches c') = length (regex c)"
    by blast
  have lookup: "map_of (matches c') r =
        (if r \<in> set (regex c) then find (re_search compile search r) ls else None)" for r
    using lookup0 f by simp
  have verdict: "state c' = Some ''passed'' \<longleftrightarrow>
      ls \<noteq> [] \<and> (\<forall>r\<in>set (regex c). \<exists>l\<in>set ls. re_search compile search r l)"
    if d: "distinct (regex c)"
  proof -
    have keys: "distinct (map fst (matches c'))"
      using inv by (simp add: Console_inv_def)
    have sub: "dom (map_of (matches c')) \<subseteq> set (regex c)"
      using lookup by (auto simp: dom_def split: if_splits)
    have hit: "map_of (matches c') r \<noteq> None \<longleftrightarrow>
        (\<exists>l\<in>set ls. re_search compile search r l)" if "r \<in> set (regex c)" for r
      unfolding lookup using that by (simp only: if_True find_Some_ex)
    have "length (matches c') = length (regex c) \<longleftrightarrow>
        card (dom (map_of (matches c'))) = card (set (regex c))"
      using keys_length [OF keys] distinct_card [OF d] by simp
    also have "\<dots> \<longleftrightarrow> dom (map_of (matches c')) = set (regex c)"
      using card_subset_eq [OF finite_set sub] by auto
    also have "\<dots> \<longleftrightarrow> (\<forall>r\<in>set (regex c). map_of (matches c') r \<noteq> None)"
      using sub by (auto simp: dom_def)
    also have "\<dots> \<longleftrightarrow> (\<forall>r\<in>set (regex c). \<exists>l\<in>set ls. re_search compile search r l)"
      using hit by blast
    finally show ?thesis
      using st f by simp
  qed
  show ?thesis
    using run lookup verdict by blast
qed

theorem unordered_mode_witness:
  "\<exists>c'. Console_session literal_compile literal_search
      (mk_instance ''t'' [] (Some (mk_config ''multi_line'' [''alpha'', ''beta''] False)))
      [''beta 1'', ''alpha 1'', ''beta 2''] = Inr c' \<and>
      map_of (matches c') ''beta'' = Some ''beta 1'' \<and>
      map_of (matches c') ''alpha'' = Some ''alpha 1'' \<and>
      state c' = Some ''passed''"
proof -
  let ?i = "mk_instance ''t'' [] (Some (mk_config ''multi_line'' [''alpha'', ''beta''] False))"
  let ?c = "projr (Console_configure literal_compile ?i Console_init) :: string console"
  let ?ls = "[''beta 1'', ''alpha 1'', ''beta 2'']"
  have cfg: "Console_configure literal_compile ?i Console_init = Inr ?c"
    by (simp add: run_defs)
  have multi: "type ?c = Some ''multi_line''" and unordered: "\<not> ordered ?c"
    and rs: "regex ?c = [''alpha'', ''beta'']"
    by (simp_all add: run_defs)
  have d: "distinct (regex ?c)"
    unfolding rs by simp
  have beta: "(if ''beta'' \<in> set (regex ?c)
      then find (re_search literal_compile literal_search ''beta'') ?ls else None) = Some ''beta 1''"
    unfolding rs by (simp add: re_search_def literal_compile_def literal_search_def)
  have alpha: "(if ''alpha'' \<in> set (regex ?c)
      then find (re_search literal_compile literal_search ''alpha'') ?ls else None) = Some ''alpha 1''"
    unfolding rs by (simp add: re_search_def literal_compile_def literal_search_def)
  have all: "?ls \<noteq> [] \<and>
      (\<forall>r\<in>set (regex ?c). \<exists>l\<in>set ?ls. re_search literal_compile literal_search r l)"
    unfolding rs by (simp add: re_search_def literal_compile_def literal_search_def)
  from unordered_mode [OF cfg multi unordered, of literal_search ?ls]
  obtain c' where run: "Console_run literal_search ?ls ?c = Inr c'"
    and lookup: "\<forall>r. map_of (matches c') r =
        (if r \<in> set (regex ?c) then find (re_search literal_compile literal_search r) ?ls
         else None)"
    and verdict: "distinct (regex ?c) \<longrightarrow>
        (state c' = Some ''passed'' \<longleftrightarrow>
           ?ls \<noteq> [] \<and>
           (\<forall>r\<in>set (regex ?c). \<exists>l\<in>set ?ls. re_search literal_compile literal_search r l))"
    by (elim exE conjE)
  have s: "Console_session literal_compile literal_search ?i ?ls = Inr c'"
    using run by (simp only: Console_session_run [OF cfg])
  have b: "map_of (matches c') ''beta'' = Some ''beta 1''"
    using lookup [THEN spec, of "''beta''"] beta by (simp only:)
  have a: "map_of (matches c') ''alpha'' = Some ''alpha 1''"
    using lookup [THEN spec, of "''alpha''"] alpha by (simp only:)
  have p: "state c' = Some ''passed''"
    by (rule iffD2 [OF verdict [THEN mp, OF d] all])
  show ?thesis
    using s b a p by (intro exI conjI)
qed

end
